theory Spec2Isabelle
  imports Complex_Main "HOL-Library.Log_Nat"
begin

section \<open>JavaScript numbers\<close>

text \<open>
  A JavaScript \<^verbatim>\<open>number\<close> is an IEEE 754 double. The model keeps its value as a real and
  rounds the exact result of every addition, multiplication and division to the nearest
  double, a tie to the even significand: \<open>exponent\<close> is the binary exponent of the
  magnitude, not below that of the subnormal numbers, and a double is an integer multiple
  of 2 to the power \<open>exponent - 52\<close>. Results of magnitude \<open>2 ^ 1024\<close> and above, which
  JavaScript turns into \<^verbatim>\<open>Infinity\<close>, do not arise in this program.
\<close>

definition exponent :: "real \<Rightarrow> int" where
  "exponent x = max (- 1022) (bitlen \<lfloor>\<bar>x\<bar> * 2 ^ 1074\<rfloor> - 1075)"

definition roundHalfEven :: "real \<Rightarrow> int" where
  "roundHalfEven q =
     (if q - of_int \<lfloor>q\<rfloor> < 1 / 2 then \<lfloor>q\<rfloor>
      else if 1 / 2 < q - of_int \<lfloor>q\<rfloor> then \<lfloor>q\<rfloor> + 1
      else if even \<lfloor>q\<rfloor> then \<lfloor>q\<rfloor> else \<lfloor>q\<rfloor> + 1)"

definition double :: "real \<Rightarrow> real" where
  "double x = of_int (roundHalfEven (x / 2 powi (exponent x - 52))) * 2 powi (exponent x - 52)"

definition jsAdd :: "real \<Rightarrow> real \<Rightarrow> real" where
  "jsAdd x y = double (x + y)"

definition jsMul :: "real \<Rightarrow> real \<Rightarrow> real" where
  "jsMul x y = double (x * y)"

definition jsDiv :: "real \<Rightarrow> real \<Rightarrow> real" where
  "jsDiv x y = double (x / y)"

text \<open>
  A number is a double when the rounding leaves it as it is; every result of
  \<^verbatim>\<open>Math.random()\<close> is one.
\<close>

definition isDouble :: "real \<Rightarrow> bool" where
  "isDouble x = (double x = x)"

text \<open>
  \<^verbatim>\<open>x % m\<close> is the remainder of the division truncated towards zero, which is exact. An
  array read at a number yields the element when the number is an index of the array and
  \<^verbatim>\<open>undefined\<close> otherwise.
\<close>

definition jsRemainder :: "real \<Rightarrow> real \<Rightarrow> real" where
  "jsRemainder x m = x - m * of_int (if 0 \<le> x / m then \<lfloor>x / m\<rfloor> else \<lceil>x / m\<rceil>)"

definition arrayAt :: "'a list \<Rightarrow> real \<Rightarrow> 'a option" where
  "arrayAt xs x =
     (if 0 \<le> x \<and> x < real (length xs) \<and> x = of_int \<lfloor>x\<rfloor> then Some (xs ! nat \<lfloor>x\<rfloor>)
      else None)"

section \<open>Static data tables (lib/charities.ts)\<close>

text \<open>
  The \<^verbatim>\<open>Charity\<close> interface. The optional \<^verbatim>\<open>imageUrl\<close> is an option. The fixed
  amounts are only carried, never computed with, and each is the real its decimal literal
  names.
\<close>

record charity =
  id' :: string
  name :: string
  description :: string
  walletAddress :: string
  imageUrl :: "string option"

definition DONATION_AMOUNTS :: "real list" where
  "DONATION_AMOUNTS = [0.05, 0.10, 0.25, 0.50, 1.00, 2.00, 5.00, 10.00]"

definition CHARITIES :: "charity list" where
  "CHARITIES =
    [ \<lparr> id' = ''water-org'', name = ''Water.org'',
        description = ''Access to safe water and sanitation to families around the world through affordable financing.'',
        walletAddress = ''0x1234567890123456789012345678901234567890'',
        imageUrl = Some ''/images/water-org.png'' \<rparr>,
      \<lparr> id' = ''save-children'', name = ''Save the Children'',
        description = ''Giving children a healthy start, the opportunity to learn, and protection from harm.'',
        walletAddress = ''0x2345678901234567890123456789012345678901'',
        imageUrl = Some ''/images/save-children.png'' \<rparr>,
      \<lparr> id' = ''doctors-borders'', name = ''Doctors Without Borders'',
        description = ''Medical humanitarian organization providing aid in nearly 70 countries to people affected by conflict, epidemics, disasters, or exclusion from healthcare.'',
        walletAddress = ''0x3456789012345678901234567890123456789012'',
        imageUrl = Some ''/images/doctors-borders.png'' \<rparr>,
      \<lparr> id' = ''wwf'', name = ''World Wildlife Fund'',
        description = ''Leading organization in wildlife conservation and endangered species protection.'',
        walletAddress = ''0x4567890123456789012345678901234567890123'',
        imageUrl = Some ''/images/wwf.png'' \<rparr>,
      \<lparr> id' = ''unicef'', name = ''UNICEF'',
        description = ''Works in over 190 countries to save children's lives, defend their rights, and help them fulfill their potential.'',
        walletAddress = ''0x5678901234567890123456789012345678901234'',
        imageUrl = Some ''/images/unicef.png'' \<rparr>,
      \<lparr> id' = ''acumen'', name = ''Acumen'',
        description = ''Changing the way the world tackles poverty by investing in sustainable businesses, leaders, and ideas.'',
        walletAddress = ''0x6789012345678901234567890123456789012345'',
        imageUrl = Some ''/images/acumen.png'' \<rparr> ]"

text \<open>
  JavaScript array indexing: an index outside the array reads \<^verbatim>\<open>undefined\<close>, here
  \<open>None\<close>.
\<close>

definition arrayGet :: "'a list \<Rightarrow> nat \<Rightarrow> 'a option" where
  "arrayGet xs i = (if i < length xs then Some (xs ! i) else None)"

section \<open>Root view (app/page.tsx)\<close>

text \<open>
  The five \<^verbatim>\<open>useState\<close> cells of \<^verbatim>\<open>Home\<close>. The TypeScript type of
  \<^verbatim>\<open>selectedCharity\<close> is \<^verbatim>\<open>Charity\<close>, but the render guard tests it for truthiness
  and its initial value is the array read \<^verbatim>\<open>CHARITIES[0]\<close>, so the cell is an option
  and its presence is something to prove.
\<close>

record home_state =
  isSpinning :: bool
  selectedAmount :: "real option"
  selectedCharity :: "charity option"
  showModal :: bool
  txHash :: "string option"

definition initial :: home_state where
  "initial = \<lparr> isSpinning = False, selectedAmount = None,
               selectedCharity = arrayGet CHARITIES 0, showModal = False, txHash = None \<rparr>"

definition handleSpinComplete :: "real \<Rightarrow> home_state \<Rightarrow> home_state" where
  "handleSpinComplete amount s = s\<lparr> selectedAmount := Some amount, showModal := True \<rparr>"

definition handleCharitySelected :: "charity \<Rightarrow> home_state \<Rightarrow> home_state" where
  "handleCharitySelected c s = s\<lparr> selectedCharity := Some c \<rparr>"

text \<open>
  \<^verbatim>\<open>handleStartSpin\<close> returns the new state and the delays of the timeouts it
  schedules: one \<^verbatim>\<open>setTimeout(() => setIsSpinning(false), 4000)\<close>, whose handle is not
  kept.
\<close>

definition handleStartSpin :: "home_state \<Rightarrow> home_state \<times> nat list" where
  "handleStartSpin s =
     (if isSpinning s then (s, [])
      else (s\<lparr> isSpinning := True, selectedAmount := None, txHash := None,
              showModal := False \<rparr>, [4000]))"

definition spinAnimationComplete :: "home_state \<Rightarrow> home_state" where
  "spinAnimationComplete s = s\<lparr> isSpinning := False \<rparr>"

definition handleDonationComplete :: "string \<Rightarrow> home_state \<Rightarrow> home_state" where
  "handleDonationComplete hash s = s\<lparr> txHash := Some hash \<rparr>"

definition handleCloseModal :: "home_state \<Rightarrow> home_state" where
  "handleCloseModal s = s\<lparr> showModal := False \<rparr>"

text \<open>
  The render: the spin button carries \<^verbatim>\<open>disabled={isSpinning || showModal}\<close>, and a
  disabled button delivers no click, so \<^verbatim>\<open>handleStartSpin\<close> runs only from an enabled
  button. The modal is rendered under
  \<^verbatim>\<open>showModal && selectedAmount !== null && selectedCharity\<close>.
\<close>

definition spinDisabled :: "home_state \<Rightarrow> bool" where
  "spinDisabled s = (isSpinning s \<or> showModal s)"

definition clickSpin :: "home_state \<Rightarrow> home_state \<times> nat list" where
  "clickSpin s = (if spinDisabled s then (s, []) else handleStartSpin s)"

definition modalRendered :: "home_state \<Rightarrow> bool" where
  "modalRendered s = (showModal s \<and> selectedAmount s \<noteq> None \<and> selectedCharity s \<noteq> None)"

text \<open>
  The orchestrator as a transition system. A configuration is the state together with the
  number of pending four-second timeouts; the events are the button click, the two
  selector callbacks, the expiry of a pending timeout, and the two callbacks of the
  dialog. Any order of events is allowed, so the configurations reached here include
  every one the browser can produce.
\<close>

datatype event =
    ClickSpin
  | SpinComplete real
  | CharitySelected charity
  | TimeoutFired
  | DonationComplete string
  | CloseModal

type_synonym config = "home_state \<times> nat"

fun step :: "event \<Rightarrow> config \<Rightarrow> config" where
  "step ClickSpin (s, p) = (case clickSpin s of (s', ts) \<Rightarrow> (s', p + length ts))"
| "step (SpinComplete a) (s, p) = (handleSpinComplete a s, p)"
| "step (CharitySelected c) (s, p) = (handleCharitySelected c s, p)"
| "step TimeoutFired (s, p) = (if p = 0 then (s, p) else (spinAnimationComplete s, p - 1))"
| "step (DonationComplete h) (s, p) = (handleDonationComplete h s, p)"
| "step CloseModal (s, p) = (handleCloseModal s, p)"

definition run :: "event list \<Rightarrow> config \<Rightarrow> config" where
  "run evs c = foldl (\<lambda>c e. step e c) c evs"

definition reached :: "event list \<Rightarrow> home_state" where
  "reached evs = fst (run evs (initial, 0))"


text \<open>
  What has happened so far, read off the history and not stored by the program: whether
  the amount and the charity callbacks have been reported since the last spin that
  started, and whether the dialog has been dismissed since the last amount report.
\<close>

record history =
  amountReported :: bool
  charityReported :: bool
  dismissed :: bool

definition noHistory :: history where
  "noHistory = \<lparr> amountReported = False, charityReported = False, dismissed = False \<rparr>"

fun observe :: "event \<Rightarrow> home_state \<Rightarrow> history \<Rightarrow> history" where
  "observe ClickSpin s h =
     (if spinDisabled s then h
      else \<lparr> amountReported = False, charityReported = False, dismissed = False \<rparr>)"
| "observe (SpinComplete a) s h = h\<lparr> amountReported := True, dismissed := False \<rparr>"
| "observe (CharitySelected c) s h = h\<lparr> charityReported := True \<rparr>"
| "observe CloseModal s h = h\<lparr> dismissed := True \<rparr>"
| "observe _ s h = h"

definition runObserved :: "event list \<Rightarrow> config \<times> history \<Rightarrow> config \<times> history" where
  "runObserved evs ch = foldl (\<lambda>(c, h) e. (step e c, observe e (fst c) h)) ch evs"

definition historyOf :: "event list \<Rightarrow> history" where
  "historyOf evs = snd (runObserved evs ((initial, 0), noHistory))"


section \<open>Wallet helper (lib/walletHelper.ts, lib/wallets.ts)\<close>

record wallet =
  wallet_id :: string
  wallet_name :: string
  iconName :: string
  color :: string

definition wallets :: "wallet list" where
  "wallets =
    [ \<lparr> wallet_id = ''metamask'', wallet_name = ''MetaMask'', iconName = ''SiMetamask'',
        color = ''#F6851B'' \<rparr>,
      \<lparr> wallet_id = ''coinbase'', wallet_name = ''Coinbase Wallet'', iconName = ''SiCoinbase'',
        color = ''#0052FF'' \<rparr>,
      \<lparr> wallet_id = ''walletconnect'', wallet_name = ''WalletConnect'',
        iconName = ''SiWalletconnect'', color = ''#3B99FC'' \<rparr>,
      \<lparr> wallet_id = ''trustwallet'', wallet_name = ''Trust Wallet'', iconName = ''SiTrustpilot'',
        color = ''#3375BB'' \<rparr> ]"

text \<open>
  \<^verbatim>\<open>isWalletAvailable\<close> asks the environment whether \<^verbatim>\<open>window.ethereum\<close> exists; the
  answer is the first argument.
\<close>

definition isWalletAvailable :: "bool \<Rightarrow> string \<Rightarrow> bool" where
  "isWalletAvailable hasEthereum walletId =
     (if walletId = ''metamask'' then hasEthereum else True)"

text \<open>
  The value an \<^verbatim>\<open>async\<close> function settles with: it resolves with a result or rejects
  with a thrown value, which is an \<^verbatim>\<open>Error\<close> object carrying a message or anything
  else.
\<close>

datatype thrown = ErrorObject string | NotAnError

datatype 'a outcome = Resolved 'a | Rejected thrown

record donation_result =
  success :: bool
  result_txHash :: "string option"
  result_error :: "string option"

text \<open>\<^verbatim>\<open>Number.prototype.toString(16)\<close> on a non-negative integer.\<close>

definition hexDigits :: string where
  "hexDigits = ''0123456789abcdef''"

fun toString16 :: "nat \<Rightarrow> string" where
  "toString16 n =
     (if n < 16 then [hexDigits ! n] else toString16 (n div 16) @ [hexDigits ! (n mod 16)])"

declare toString16.simps [simp del]

text \<open>
  \<^verbatim>\<open>sendDonation\<close>. Its 64 calls of \<^verbatim>\<open>Math.random()\<close> are the values \<open>rnd 0\<close>,
  \<open>rnd 1\<close>, ..., each a double in the interval from 0 (included) to 1 (excluded). The
  1500 ms delay before the promise resolves changes no value.
\<close>

definition sendDonation ::
  "(nat \<Rightarrow> real) \<Rightarrow> string \<Rightarrow> string \<Rightarrow> real \<Rightarrow> donation_result outcome" where
  "sendDonation rnd walletId recipientAddress amount =
     (let txHash = ''0x'' @ concat (map (\<lambda>i. toString16 (nat \<lfloor>jsMul (rnd i) 16\<rfloor>)) [0..<64])
      in Resolved \<lparr> success = True, result_txHash = Some txHash, result_error = None \<rparr>)"

section \<open>Confirmation dialog (components/DonationModal.tsx)\<close>

text \<open>JavaScript truthiness of a string that may be \<^verbatim>\<open>null\<close> or \<^verbatim>\<open>undefined\<close>.\<close>

definition truthy :: "string option \<Rightarrow> bool" where
  "truthy v = (case v of None \<Rightarrow> False | Some str \<Rightarrow> str \<noteq> [])"

record modal_state =
  modalCharity :: charity
  isProcessing :: bool
  error :: "string option"
  availableWallets :: "wallet list"

definition mountModal :: "charity \<Rightarrow> modal_state" where
  "mountModal c = \<lparr> modalCharity = c, isProcessing = False, error = None,
                    availableWallets = wallets \<rparr>"

definition checkWallets :: "bool \<Rightarrow> modal_state \<Rightarrow> modal_state" where
  "checkWallets hasEthereum d =
     d\<lparr> availableWallets := filter (\<lambda>w. isWalletAvailable hasEthereum (wallet_id w)) wallets \<rparr>"

text \<open>
  \<^verbatim>\<open>handleDonateWithWallet\<close>, split at its \<^verbatim>\<open>await\<close>: the part before it, the call of the
  submission collaborator, and the part that runs when the collaborator has settled. The
  second part returns the new dialog state and the arguments of the calls of
  \<^verbatim>\<open>onDonationComplete\<close> it made.
\<close>

definition donateStart :: "modal_state \<Rightarrow> modal_state" where
  "donateStart d = d\<lparr> isProcessing := True, error := None \<rparr>"

definition donateSettle :: "donation_result outcome \<Rightarrow> modal_state \<Rightarrow> modal_state \<times> string list" where
  "donateSettle settled d =
     (case settled of
        Resolved result \<Rightarrow>
          (if success result \<and> truthy (result_txHash result)
           then (d\<lparr> isProcessing := False \<rparr>, [the (result_txHash result)])
           else (d\<lparr> error := Some (if truthy (result_error result) then the (result_error result)
                                   else ''Transaction failed''),
                   isProcessing := False \<rparr>, []))
      | Rejected err \<Rightarrow>
          (d\<lparr> error := Some (case err of ErrorObject message \<Rightarrow> message
                              | NotAnError \<Rightarrow> ''Transaction failed. Please try again.''),
              isProcessing := False \<rparr>, []))"

definition handleDonateWithWallet ::
  "(string \<Rightarrow> string \<Rightarrow> real \<Rightarrow> donation_result outcome) \<Rightarrow> real \<Rightarrow> string \<Rightarrow>
     modal_state \<Rightarrow> modal_state \<times> string list" where
  "handleDonateWithWallet submit amount walletId d =
     donateSettle (submit walletId (walletAddress (modalCharity (donateStart d))) amount)
       (donateStart d)"

definition tryAgain :: "modal_state \<Rightarrow> modal_state" where
  "tryAgain d = d\<lparr> error := None \<rparr>"

text \<open>
  What the dialog renders, by the order of its conditionals: the completed view with the
  receipt when the \<^verbatim>\<open>txHash\<close> prop is truthy, else the processing view, else the error
  with its Try Again button, else the wallet list with Cancel.
\<close>

datatype modal_view =
    CompleteView string
  | ProcessingView
  | ErrorView string
  | WalletListView "wallet list"

definition modalView :: "string option \<Rightarrow> modal_state \<Rightarrow> modal_view" where
  "modalView txHashProp d =
     (if truthy txHashProp then CompleteView (the txHashProp)
      else if isProcessing d then ProcessingView
      else if truthy (error d) then ErrorView (the (error d))
      else WalletListView (availableWallets d))"

text \<open>
  One donation attempt seen from the root view: the dialog runs the attempt and every
  \<^verbatim>\<open>onDonationComplete\<close> call reaches \<^verbatim>\<open>handleDonationComplete\<close>.
\<close>

definition attemptDonation ::
  "(string \<Rightarrow> string \<Rightarrow> real \<Rightarrow> donation_result outcome) \<Rightarrow> real \<Rightarrow> string \<Rightarrow>
     home_state \<times> modal_state \<Rightarrow> home_state \<times> modal_state" where
  "attemptDonation submit amount walletId sd =
     (case handleDonateWithWallet submit amount walletId (snd sd) of
        (d', calls) \<Rightarrow> (foldl (\<lambda>s h. handleDonationComplete h s) (fst sd) calls, d'))"

text \<open>
  The invariant that ties the stored flags to the history: the dialog flag is up exactly
  when an amount has been reported and not dismissed since, an amount is stored whenever
  the flag is up, a charity is always stored, and one timeout is pending exactly while
  the spinning flag is up.
\<close>

definition tied :: "config \<times> history \<Rightarrow> bool" where
  "tied ch = (case ch of ((s, p), h) \<Rightarrow>
     showModal s = (amountReported h \<and> \<not> dismissed h) \<and>
     (showModal s \<longrightarrow> selectedAmount s \<noteq> None) \<and>
     selectedCharity s \<noteq> None \<and>
     p = (if isSpinning s then 1 else 0))"

section \<open>Timers of the browser\<close>

text \<open>
  The closures the components hand to \<^verbatim>\<open>setInterval\<close> and \<^verbatim>\<open>setTimeout\<close>, each with the
  value it captured: the amount selector's 100 ms interval and its 3900 ms timeout holding
  \<^verbatim>\<open>selectedSegment\<close>, the charity selector's 100 ms interval and its 4000 ms timeout
  holding \<^verbatim>\<open>selectedCharity\<close>, and the 4000 ms timeout of \<^verbatim>\<open>handleStartSpin\<close>. A
  captured array read may be \<^verbatim>\<open>undefined\<close>, here \<open>None\<close>.
\<close>

datatype callback =
    SpinIntervalTick
  | SpinTimeoutDone "real option"
  | CharityIntervalTick
  | CharityReveal "charity option"
  | SpinAnimationComplete

text \<open>
  The timer table of the browser: the clock in milliseconds, the next handle to hand out
  (handles start at 1, so a handle is truthy), and the pending timers in the order of
  their creation. An interval has a period, a timeout none.
\<close>

record timer =
  handle :: nat
  due :: nat
  period :: "nat option"
  callback :: callback

record browser =
  now :: nat
  nextHandle :: nat
  timers :: "timer list"

definition setTimeout :: "callback \<Rightarrow> nat \<Rightarrow> browser \<Rightarrow> nat \<times> browser" where
  "setTimeout cb delay b =
     (nextHandle b,
      b\<lparr> nextHandle := nextHandle b + 1,
         timers := timers b @ [\<lparr> handle = nextHandle b, due = now b + delay, period = None,
                                 callback = cb \<rparr>] \<rparr>)"

definition setInterval :: "callback \<Rightarrow> nat \<Rightarrow> browser \<Rightarrow> nat \<times> browser" where
  "setInterval cb delay b =
     (nextHandle b,
      b\<lparr> nextHandle := nextHandle b + 1,
         timers := timers b @ [\<lparr> handle = nextHandle b, due = now b + delay,
                                 period = Some delay, callback = cb \<rparr>] \<rparr>)"

text \<open>
  \<^verbatim>\<open>if (ref) clearTimeout(ref)\<close> and \<^verbatim>\<open>if (ref) clearInterval(ref)\<close>: nothing for an empty
  reference, otherwise the timer with that handle leaves the table, if it is still there.
\<close>

definition clearTimer :: "nat option \<Rightarrow> browser \<Rightarrow> browser" where
  "clearTimer ref b =
     (case ref of None \<Rightarrow> b
      | Some h \<Rightarrow> b\<lparr> timers := filter (\<lambda>t. handle t \<noteq> h) (timers b) \<rparr>)"

text \<open>
  One millisecond passes. The timers due at the new time fire in the order of the table;
  a timer cleared by an earlier callback of the same millisecond does not fire. A timeout
  leaves the table before its callback runs, an interval is due again one period later.
  The callbacks are run by \<open>fire\<close>, which also sees the rest of the page, \<open>'w\<close>.
\<close>

definition fireTimer ::
  "(callback \<Rightarrow> browser \<times> 'w \<Rightarrow> browser \<times> 'w) \<Rightarrow> nat \<Rightarrow> browser \<times> 'w \<Rightarrow> browser \<times> 'w" where
  "fireTimer fire h bw =
     (case find (\<lambda>t. handle t = h) (timers (fst bw)) of
        None \<Rightarrow> bw
      | Some t \<Rightarrow>
          fire (callback t)
            ((fst bw)\<lparr> timers :=
                (case period t of
                   None \<Rightarrow> filter (\<lambda>t. handle t \<noteq> h) (timers (fst bw))
                 | Some p \<Rightarrow> map (\<lambda>t. if handle t = h then t\<lparr> due := due t + p \<rparr> else t)
                              (timers (fst bw))) \<rparr>,
             snd bw))"

definition tick ::
  "(callback \<Rightarrow> browser \<times> 'w \<Rightarrow> browser \<times> 'w) \<Rightarrow> browser \<times> 'w \<Rightarrow> browser \<times> 'w" where
  "tick fire bw =
     (let b = (fst bw)\<lparr> now := now (fst bw) + 1 \<rparr>
      in foldl (\<lambda>bw h. fireTimer fire h bw) (b, snd bw)
           (map handle (filter (\<lambda>t. due t \<le> now b) (timers b))))"

definition advance ::
  "(callback \<Rightarrow> browser \<times> 'w \<Rightarrow> browser \<times> 'w) \<Rightarrow> nat \<Rightarrow> browser \<times> 'w \<Rightarrow> browser \<times> 'w" where
  "advance fire n bw = ((tick fire) ^^ n) bw"

section \<open>Amount selector (components/DonationSpinner.tsx)\<close>

definition segments :: "real list" where
  "segments = DONATION_AMOUNTS"

definition segmentCount :: real where
  "segmentCount = real (length segments)"

definition segmentAngle :: real where
  "segmentAngle = jsDiv 360 segmentCount"

text \<open>
  The rotation chosen when a spin starts, from the two results \<open>r1\<close> and \<open>r2\<close> of
  \<^verbatim>\<open>Math.random()\<close> and the value of \<^verbatim>\<open>lastSpinRef\<close>, and the segment it lands on.
\<close>

definition newRotation :: "real \<Rightarrow> real \<Rightarrow> real \<Rightarrow> real" where
  "newRotation lastSpin r1 r2 =
     (let spinRotations = jsAdd 5 (jsMul r1 5);
          randomSegment = of_int \<lfloor>jsMul r2 segmentCount\<rfloor>;
          randomAngle = jsMul randomSegment segmentAngle
      in jsAdd (jsAdd lastSpin (jsMul spinRotations 360)) randomAngle)"

definition landedSegmentIndex :: "real \<Rightarrow> real" where
  "landedSegmentIndex rotation =
     (let normalizedRotation = jsRemainder rotation 360
      in of_int \<lfloor>jsDiv normalizedRotation segmentAngle\<rfloor>)"

definition selectedSegment :: "real \<Rightarrow> real option" where
  "selectedSegment rotation =
     arrayAt segments (jsRemainder (landedSegmentIndex rotation) segmentCount)"

record spinner =
  selectedAmount_sp :: "real option"
  revealingAmount :: bool
  lastSpinRef :: real
  spinIntervalRef :: "nat option"
  spinTimeoutRef :: "nat option"
  transform :: "real option"

definition mountSpinner :: spinner where
  "mountSpinner = \<lparr> selectedAmount_sp = None, revealingAmount = False, lastSpinRef = 0,
                    spinIntervalRef = None, spinTimeoutRef = None, transform = None \<rparr>"

text \<open>
  The clearing of both references, which is the start of the effect, its cleanup function
  and the cleanup on unmount.
\<close>

definition spinnerCleanup :: "browser \<times> spinner \<Rightarrow> browser \<times> spinner" where
  "spinnerCleanup bs =
     (clearTimer (spinTimeoutRef (snd bs)) (clearTimer (spinIntervalRef (snd bs)) (fst bs)),
      (snd bs)\<lparr> spinIntervalRef := None, spinTimeoutRef := None \<rparr>)"

definition spinnerEffect :: "bool \<Rightarrow> real \<Rightarrow> real \<Rightarrow> browser \<times> spinner \<Rightarrow> browser \<times> spinner" where
  "spinnerEffect spinning r1 r2 bs =
     (case spinnerCleanup bs of (b, sp) \<Rightarrow>
        if spinning then
          (let rotation = newRotation 0 r1 r2;
               segment = selectedSegment rotation;
               (hi, b1) = setInterval SpinIntervalTick 100 b;
               (ht, b2) = setTimeout (SpinTimeoutDone segment) 3900 b1
           in (b2, sp\<lparr> revealingAmount := False, selectedAmount_sp := None,
                      lastSpinRef := rotation, transform := Some rotation,
                      spinIntervalRef := Some hi, spinTimeoutRef := Some ht \<rparr>))
        else (b, sp))"

text \<open>
  React runs the cleanup of the previous run of an effect before it runs the effect
  again, which it does when a dependency changed: here \<^verbatim>\<open>isSpinning\<close> or the identity of
  \<^verbatim>\<open>onSpinComplete\<close>.
\<close>

definition spinnerUpdate :: "bool \<Rightarrow> real \<Rightarrow> real \<Rightarrow> browser \<times> spinner \<Rightarrow> browser \<times> spinner" where
  "spinnerUpdate spinning r1 r2 bs = spinnerEffect spinning r1 r2 (spinnerCleanup bs)"

text \<open>
  The two timer callbacks. Each returns the arguments of the calls of
  \<^verbatim>\<open>onSpinComplete\<close> it made. The interval reads the clock for the amount shown meanwhile.
\<close>

definition spinnerFire ::
  "callback \<Rightarrow> browser \<times> spinner \<Rightarrow> (browser \<times> spinner) \<times> real option list" where
  "spinnerFire cb bs =
     (case cb of
        SpinIntervalTick \<Rightarrow>
          (let currentRotation = jsMul (jsDiv (real (now (fst bs) mod 1000)) 1000) 360;
               currentIndex =
                 jsRemainder (of_int \<lfloor>jsDiv currentRotation segmentAngle\<rfloor>) segmentCount
           in ((fst bs, (snd bs)\<lparr> selectedAmount_sp := arrayAt segments currentIndex \<rparr>), []))
      | SpinTimeoutDone segment \<Rightarrow>
          ((clearTimer (spinIntervalRef (snd bs)) (fst bs),
            (snd bs)\<lparr> spinIntervalRef := None, selectedAmount_sp := segment,
                       revealingAmount := True \<rparr>), [segment])
      | _ \<Rightarrow> (bs, []))"

text \<open>
  The amount selector mounted alone, with a parent that records every call of
  \<^verbatim>\<open>onSpinComplete\<close>.
\<close>

type_synonym spinner_rig = "browser \<times> spinner \<times> real option list"

definition spinnerRigFire :: "callback \<Rightarrow> spinner_rig \<Rightarrow> spinner_rig" where
  "spinnerRigFire cb bw =
     (case spinnerFire cb (fst bw, fst (snd bw)) of
        ((b, sp), calls) \<Rightarrow> (b, sp, snd (snd bw) @ calls))"

definition spinnerRigUpdate :: "bool \<Rightarrow> real \<Rightarrow> real \<Rightarrow> spinner_rig \<Rightarrow> spinner_rig" where
  "spinnerRigUpdate spinning r1 r2 bw =
     (case spinnerUpdate spinning r1 r2 (fst bw, fst (snd bw)) of
        (b, sp) \<Rightarrow> (b, sp, snd (snd bw)))"

definition spinnerRigUnmount :: "spinner_rig \<Rightarrow> spinner_rig" where
  "spinnerRigUnmount bw =
     (case spinnerCleanup (spinnerCleanup (fst bw, fst (snd bw))) of
        (b, sp) \<Rightarrow> (b, sp, snd (snd bw)))"

definition startBrowser :: browser where
  "startBrowser = \<lparr> now = 0, nextHandle = 1, timers = [] \<rparr>"

definition spinnerRig :: spinner_rig where
  "spinnerRig = (startBrowser, mountSpinner, [])"


text \<open>
  While the amount selector spins towards time \<open>t\<close>: its parent has the calls \<open>seen\<close>, the
  table holds its interval and its timeout due at \<open>t\<close> with the segment \<open>seg\<close>, and the two
  references hold their handles. After the reveal: the table is empty and \<open>seg\<close> has been
  reported once.
\<close>

definition spinningUntil :: "nat \<Rightarrow> real option \<Rightarrow> real option list \<Rightarrow> spinner_rig \<Rightarrow> bool" where
  "spinningUntil t seg seen bw =
     (snd (snd bw) = seen \<and> now (fst bw) < t \<and>
      (case timers (fst bw) of
         [i, d] \<Rightarrow>
           period i = Some 100 \<and> callback i = SpinIntervalTick \<and> now (fst bw) < due i \<and>
           period d = None \<and> callback d = SpinTimeoutDone seg \<and> due d = t \<and>
           handle i \<noteq> handle d \<and>
           spinIntervalRef (fst (snd bw)) = Some (handle i) \<and>
           spinTimeoutRef (fst (snd bw)) = Some (handle d)
       | _ \<Rightarrow> False))"

definition revealed :: "real option \<Rightarrow> real option list \<Rightarrow> spinner_rig \<Rightarrow> bool" where
  "revealed seg seen bw = (snd (snd bw) = seen @ [seg] \<and> timers (fst bw) = [])"

definition spinnerOwns :: "browser \<times> spinner \<Rightarrow> bool" where
  "spinnerOwns bs =
     (\<forall>t\<in>set (timers (fst bs)).
        spinIntervalRef (snd bs) = Some (handle t) \<or> spinTimeoutRef (snd bs) = Some (handle t))"

section \<open>Charity selector (components/CharityPicker.tsx)\<close>

text \<open>
  The three state cells of \<^verbatim>\<open>CharityPicker\<close>, and the two handles \<^verbatim>\<open>spinInterval\<close> and
  \<^verbatim>\<open>revealTimeout\<close> that the cleanup function of the last run of the effect captured.
\<close>

record picker =
  currentIndex :: nat
  revealingCharity :: bool
  finalCharity :: "charity option"
  spinInterval :: "nat option"
  revealTimeout :: "nat option"

definition mountPicker :: picker where
  "mountPicker = \<lparr> currentIndex = 0, revealingCharity = False, finalCharity = None,
                   spinInterval = None, revealTimeout = None \<rparr>"

definition pickerCleanup :: "browser \<times> picker \<Rightarrow> browser \<times> picker" where
  "pickerCleanup bp =
     (clearTimer (revealTimeout (snd bp)) (clearTimer (spinInterval (snd bp)) (fst bp)), snd bp)"

text \<open>
  The charity the effect draws from the result \<open>r\<close> of its call of \<^verbatim>\<open>Math.random()\<close>:
  \<^verbatim>\<open>CHARITIES[Math.floor(Math.random() * CHARITIES.length)]\<close>.
\<close>

definition selectedCharity_pk :: "real \<Rightarrow> charity option" where
  "selectedCharity_pk r = arrayAt CHARITIES (of_int \<lfloor>jsMul r (real (length CHARITIES))\<rfloor>)"

text \<open>
  The effect. When \<^verbatim>\<open>isSpinning\<close> is false the two variables stay \<^verbatim>\<open>undefined\<close>.
\<close>

definition pickerEffect :: "bool \<Rightarrow> real \<Rightarrow> browser \<times> picker \<Rightarrow> browser \<times> picker" where
  "pickerEffect spinning r bp =
     (if spinning then
        (let (hi, b1) = setInterval CharityIntervalTick 100 (fst bp);
             selected = selectedCharity_pk r;
             (ht, b2) = setTimeout (CharityReveal selected) 4000 b1
         in (b2, (snd bp)\<lparr> revealingCharity := False, finalCharity := selected,
                          spinInterval := Some hi, revealTimeout := Some ht \<rparr>))
      else (fst bp, (snd bp)\<lparr> spinInterval := None, revealTimeout := None \<rparr>))"

text \<open>
  A change of \<^verbatim>\<open>isSpinning\<close> or of the identity of \<^verbatim>\<open>onCharitySelected\<close> runs the cleanup
  of the previous run and then the effect.
\<close>

definition pickerUpdate :: "bool \<Rightarrow> real \<Rightarrow> browser \<times> picker \<Rightarrow> browser \<times> picker" where
  "pickerUpdate spinning r bp = pickerEffect spinning r (pickerCleanup bp)"

definition pickerFire ::
  "callback \<Rightarrow> browser \<times> picker \<Rightarrow> (browser \<times> picker) \<times> charity option list" where
  "pickerFire cb bp =
     (case cb of
        CharityIntervalTick \<Rightarrow>
          ((fst bp, (snd bp)\<lparr> currentIndex := (currentIndex (snd bp) + 1) mod length CHARITIES \<rparr>),
           [])
      | CharityReveal selected \<Rightarrow>
          ((fst bp, (snd bp)\<lparr> revealingCharity := True \<rparr>), [selected])
      | _ \<Rightarrow> (bp, []))"

text \<open>
  The name the selector renders; \<open>None\<close> is the \<^verbatim>\<open>TypeError\<close> of reading \<^verbatim>\<open>.name\<close> of
  \<^verbatim>\<open>undefined\<close>.
\<close>

definition pickerShows :: "bool \<Rightarrow> picker \<Rightarrow> string option" where
  "pickerShows spinning p =
     (if spinning then map_option name (arrayGet CHARITIES (currentIndex p))
      else case finalCharity p of
             Some c \<Rightarrow> Some (name c)
           | None \<Rightarrow> map_option name (arrayGet CHARITIES 0))"

text \<open>
  The charity selector mounted alone, with a parent that records every call of
  \<^verbatim>\<open>onCharitySelected\<close>.
\<close>

type_synonym picker_rig = "browser \<times> picker \<times> charity option list"

definition pickerRigFire :: "callback \<Rightarrow> picker_rig \<Rightarrow> picker_rig" where
  "pickerRigFire cb bw =
     (case pickerFire cb (fst bw, fst (snd bw)) of
        ((b, p), calls) \<Rightarrow> (b, p, snd (snd bw) @ calls))"

definition pickerRigUpdate :: "bool \<Rightarrow> real \<Rightarrow> picker_rig \<Rightarrow> picker_rig" where
  "pickerRigUpdate spinning r bw =
     (case pickerUpdate spinning r (fst bw, fst (snd bw)) of
        (b, p) \<Rightarrow> (b, p, snd (snd bw)))"

definition pickerRigUnmount :: "picker_rig \<Rightarrow> picker_rig" where
  "pickerRigUnmount bw =
     (case pickerCleanup (fst bw, fst (snd bw)) of (b, p) \<Rightarrow> (b, p, snd (snd bw)))"

definition pickerRig :: picker_rig where
  "pickerRig = (startBrowser, mountPicker, [])"

text \<open>
  While the charity selector cycles towards the reveal at time \<open>t\<close>, and after the reveal
  while \<^verbatim>\<open>isSpinning\<close> is still true: the interval goes on, the charity has been reported
  once.
\<close>

definition cyclingUntil :: "nat \<Rightarrow> charity option \<Rightarrow> charity option list \<Rightarrow> picker_rig \<Rightarrow> bool" where
  "cyclingUntil t c seen bw =
     (snd (snd bw) = seen \<and> now (fst bw) < t \<and> finalCharity (fst (snd bw)) = c \<and>
      (case timers (fst bw) of
         [i, d] \<Rightarrow>
           period i = Some 100 \<and> callback i = CharityIntervalTick \<and> now (fst bw) < due i \<and>
           period d = None \<and> callback d = CharityReveal c \<and> due d = t \<and>
           handle i \<noteq> handle d \<and>
           spinInterval (fst (snd bw)) = Some (handle i) \<and>
           revealTimeout (fst (snd bw)) = Some (handle d)
       | _ \<Rightarrow> False))"

definition cyclingOn :: "charity option \<Rightarrow> charity option list \<Rightarrow> picker_rig \<Rightarrow> bool" where
  "cyclingOn c seen bw =
     (snd (snd bw) = seen @ [c] \<and> finalCharity (fst (snd bw)) = c \<and>
      (case timers (fst bw) of
         [i] \<Rightarrow>
           period i = Some 100 \<and> callback i = CharityIntervalTick \<and> now (fst bw) < due i \<and>
           spinInterval (fst (snd bw)) = Some (handle i)
       | _ \<Rightarrow> False))"

definition pickerOwns :: "browser \<times> picker \<Rightarrow> bool" where
  "pickerOwns bp =
     (\<forall>t\<in>set (timers (fst bp)).
        spinInterval (snd bp) = Some (handle t) \<or> revealTimeout (snd bp) = Some (handle t))"

section \<open>The page: root view, selectors and timers together\<close>

text \<open>
  The mounted page: the state of \<^verbatim>\<open>Home\<close>, of its two selectors, and the number of
  results of \<^verbatim>\<open>Math.random()\<close> consumed so far from the sequence \<open>rnd\<close>.
\<close>

record page =
  home :: home_state
  amountSelector :: spinner
  charitySelector :: picker
  drawn :: nat

definition mountPage :: "browser \<times> page" where
  "mountPage = (startBrowser,
     \<lparr> home = initial, amountSelector = mountSpinner, charitySelector = mountPicker,
       drawn = 0 \<rparr>)"

text \<open>
  A render of \<^verbatim>\<open>Home\<close>. Its handlers are new functions at every render, and each selector
  lists its callback among the dependencies of its effect, so every render of the root
  view runs the cleanup and the effect of both selectors again, the charity selector
  first as in the markup. The effects call \<^verbatim>\<open>Math.random()\<close> only while spinning.
\<close>

definition renderPage :: "(nat \<Rightarrow> real) \<Rightarrow> browser \<times> page \<Rightarrow> browser \<times> page" where
  "renderPage rnd bw =
     (let pg = snd bw; spinning = isSpinning (home pg); k = drawn pg;
          (b1, pk) = pickerUpdate spinning (rnd k) (fst bw, charitySelector pg);
          (b2, sp) = spinnerUpdate spinning (rnd (k + 1)) (rnd (k + 2)) (b1, amountSelector pg)
      in (b2, pg\<lparr> amountSelector := sp, charitySelector := pk,
                    drawn := (if spinning then k + 3 else k) \<rparr>))"

text \<open>
  State setters of the root view: React renders when the state changed and not otherwise.
\<close>

definition setHome :: "(nat \<Rightarrow> real) \<Rightarrow> home_state \<Rightarrow> browser \<times> page \<Rightarrow> browser \<times> page" where
  "setHome rnd h bw =
     (if h = home (snd bw) then bw else renderPage rnd (fst bw, (snd bw)\<lparr> home := h \<rparr>))"

text \<open>
  The click on the spin button: the handler schedules its timeout, then React renders.
\<close>

definition clickPage :: "(nat \<Rightarrow> real) \<Rightarrow> browser \<times> page \<Rightarrow> browser \<times> page" where
  "clickPage rnd bw =
     (case clickSpin (home (snd bw)) of
        (h, delays) \<Rightarrow>
          setHome rnd h
            (foldl (\<lambda>b delay. snd (setTimeout SpinAnimationComplete delay b)) (fst bw) delays,
             snd bw))"

text \<open>
  The timer callbacks in the page. The calls a selector makes reach the handlers of the
  root view; an \<^verbatim>\<open>undefined\<close> argument, which no draw produces, is outside what the model
  of the root view holds and is dropped.
\<close>

definition firePage :: "(nat \<Rightarrow> real) \<Rightarrow> callback \<Rightarrow> browser \<times> page \<Rightarrow> browser \<times> page" where
  "firePage rnd cb bw =
     (case cb of
        SpinAnimationComplete \<Rightarrow> setHome rnd (spinAnimationComplete (home (snd bw))) bw
      | CharityIntervalTick \<Rightarrow>
          (case pickerFire cb (fst bw, charitySelector (snd bw)) of
             ((b, pk), calls) \<Rightarrow> (b, (snd bw)\<lparr> charitySelector := pk \<rparr>))
      | CharityReveal selected \<Rightarrow>
          (case pickerFire cb (fst bw, charitySelector (snd bw)) of
             ((b, pk), calls) \<Rightarrow>
               setHome rnd
                 (foldl (\<lambda>h v. case v of Some c \<Rightarrow> handleCharitySelected c h | None \<Rightarrow> h)
                    (home (snd bw)) calls)
                 (b, (snd bw)\<lparr> charitySelector := pk \<rparr>))
      | SpinIntervalTick \<Rightarrow>
          (case spinnerFire cb (fst bw, amountSelector (snd bw)) of
             ((b, sp), calls) \<Rightarrow> (b, (snd bw)\<lparr> amountSelector := sp \<rparr>))
      | SpinTimeoutDone segment \<Rightarrow>
          (case spinnerFire cb (fst bw, amountSelector (snd bw)) of
             ((b, sp), calls) \<Rightarrow>
               setHome rnd
                 (foldl (\<lambda>h v. case v of Some a \<Rightarrow> handleSpinComplete a h | None \<Rightarrow> h)
                    (home (snd bw)) calls)
                 (b, (snd bw)\<lparr> amountSelector := sp \<rparr>)))"

definition closePage :: "(nat \<Rightarrow> real) \<Rightarrow> browser \<times> page \<Rightarrow> browser \<times> page" where
  "closePage rnd bw = setHome rnd (handleCloseModal (home (snd bw))) bw"

text \<open>
  The promise of a donation attempt resolves and the dialog that started the attempt,
  still rendered or dismissed since, calls \<^verbatim>\<open>onDonationComplete\<close> with the receipt: the
  \<^verbatim>\<open>await\<close> in \<^verbatim>\<open>handleDonateWithWallet\<close> goes on whether or not the dialog is mounted.
\<close>

definition receiptPage :: "(nat \<Rightarrow> real) \<Rightarrow> string \<Rightarrow> browser \<times> page \<Rightarrow> browser \<times> page" where
  "receiptPage rnd hash bw = setHome rnd (handleDonationComplete hash (home (snd bw))) bw"


text \<open>
  The page while a spin is on: the state of the root view is \<open>h\<close>, with the spinning flag
  up, and the table holds, in the order of their creation and with the handles \<open>hs\<close>, the
  timeout of the root view, the interval and the reveal timeout of the charity selector,
  and the interval and the timeout of the amount selector, the last one holding \<open>seg\<close>;
  the three timeouts are due at \<open>dueStop\<close>, \<open>dueReveal\<close> and \<open>dueAmount\<close>. Between the
  firings of a millisecond the intervals may be due at the time of the clock; from one
  millisecond to the next they are due later.
\<close>

definition pageShape ::
  "nat list \<Rightarrow> nat \<Rightarrow> nat \<Rightarrow> nat \<Rightarrow> real option \<Rightarrow> home_state \<Rightarrow> browser \<times> page \<Rightarrow> bool" where
  "pageShape hs dueStop dueReveal dueAmount seg h bw =
     (home (snd bw) = h \<and> isSpinning h \<and>
      map handle (timers (fst bw)) = hs \<and> distinct hs \<and>
      (\<forall>x\<in>set hs. x < nextHandle (fst bw)) \<and>
      (case timers (fst bw) of
         [s, ci, cr, si, st] \<Rightarrow>
           callback s = SpinAnimationComplete \<and> period s = None \<and> due s = dueStop \<and>
           callback ci = CharityIntervalTick \<and> period ci = Some 100 \<and>
           (case callback cr of CharityReveal c \<Rightarrow> True | _ \<Rightarrow> False) \<and>
           period cr = None \<and> due cr = dueReveal \<and>
           callback si = SpinIntervalTick \<and> period si = Some 100 \<and>
           callback st = SpinTimeoutDone seg \<and> period st = None \<and> due st = dueAmount \<and>
           spinInterval (charitySelector (snd bw)) = Some (handle ci) \<and>
           revealTimeout (charitySelector (snd bw)) = Some (handle cr) \<and>
           spinIntervalRef (amountSelector (snd bw)) = Some (handle si) \<and>
           spinTimeoutRef (amountSelector (snd bw)) = Some (handle st)
       | _ \<Rightarrow> False))"

definition pageSpinning ::
  "nat \<Rightarrow> nat \<Rightarrow> nat \<Rightarrow> real option \<Rightarrow> home_state \<Rightarrow> browser \<times> page \<Rightarrow> bool" where
  "pageSpinning dueStop dueReveal dueAmount seg h bw =
     (pageShape (map handle (timers (fst bw))) dueStop dueReveal dueAmount seg h bw \<and>
      now (fst bw) < due (timers (fst bw) ! 1) \<and> now (fst bw) < due (timers (fst bw) ! 3))"


text \<open>
  The page at rest: no timer is pending and no selector holds a handle.
\<close>

definition pageIdle :: "browser \<times> page \<Rightarrow> bool" where
  "pageIdle bw =
     (timers (fst bw) = [] \<and>
      spinInterval (charitySelector (snd bw)) = None \<and>
      revealTimeout (charitySelector (snd bw)) = None \<and>
      spinIntervalRef (amountSelector (snd bw)) = None \<and>
      spinTimeoutRef (amountSelector (snd bw)) = None)"

section \<open>Rounding to a double\<close>

lemma roundHalfEven_nonneg: "0 \<le> q \<Longrightarrow> 0 \<le> roundHalfEven q"
  by (simp add: roundHalfEven_def)

lemma roundHalfEven_of_int: "roundHalfEven (of_int k) = k"
  by (simp add: roundHalfEven_def)

lemma double_nonneg: "0 \<le> x \<Longrightarrow> 0 \<le> double x"
  by (simp add: double_def roundHalfEven_nonneg)

lemma exponent_lower:
  assumes "- 1022 < exponent x"
  shows "2 powi exponent x \<le> \<bar>x\<bar>"
proof -
  define K :: real where "K = 2 powi 1074"
  have K: "0 < K" "(2::real) ^ 1074 = K" by (simp_all add: K_def)
  define m where "m = \<lfloor>\<bar>x\<bar> * 2 ^ 1074\<rfloor>"
  have "exponent x = max (- 1022) (bitlen m - 1075)"
    by (simp only: exponent_def m_def)
  with assms have e: "exponent x = bitlen m - 1075" by (simp add: max_def split: if_splits)
  with assms have b: "53 < bitlen m" by simp
  have pos: "0 < m"
  proof (rule ccontr)
    assume "\<not> 0 < m"
    then have "bitlen m = 0" by (simp add: bitlen_eq_zero_iff)
    with b show False by simp
  qed
  from bitlen_bounds [OF pos] have "2 ^ nat (bitlen m - 1) \<le> m" by simp
  then have "(2::real) ^ nat (bitlen m - 1) \<le> of_int m"
    by (metis of_int_le_iff of_int_numeral of_int_power)
  also have "\<dots> \<le> \<bar>x\<bar> * K" unfolding m_def K(2) by (rule of_int_floor_le)
  finally have "(2::real) ^ nat (bitlen m - 1) / K \<le> \<bar>x\<bar>"
    using K(1) by (simp add: pos_divide_le_eq)
  moreover have "(2::real) powi exponent x = 2 ^ nat (bitlen m - 1) / K"
  proof -
    have eq: "exponent x = int (nat (bitlen m - 1)) - 1074" using e b by simp
    have "(2::real) powi (int (nat (bitlen m - 1)) - 1074)
        = 2 powi int (nat (bitlen m - 1)) / 2 powi 1074"
      by (rule power_int_diff) simp
    then show ?thesis by (simp only: eq power_int_of_nat K_def)
  qed
  ultimately show ?thesis by simp
qed

lemma double_exact:
  assumes "\<bar>n\<bar> < 2 ^ 53" and "- 1074 \<le> j"
  shows "double (of_int n * 2 powi j) = of_int n * 2 powi j"
proof -
  let ?x = "of_int n * 2 powi j :: real"
  let ?e = "exponent ?x"
  have le: "?e - 52 \<le> j"
  proof (cases "- 1022 < ?e")
    case True
    from exponent_lower [OF True] have "2 powi ?e \<le> \<bar>?x\<bar>" .
    also have "\<bar>?x\<bar> = \<bar>of_int n\<bar> * 2 powi j" by (simp add: abs_mult)
    also have "\<dots> < 2 ^ 53 * 2 powi j"
    proof -
      have "\<bar>of_int n :: real\<bar> < 2 ^ 53" using assms(1)
        by (metis of_int_abs of_int_less_iff of_int_numeral of_int_power)
      then show ?thesis by (simp add: mult_strict_right_mono)
    qed
    also have "\<dots> = 2 powi (53 + j)" by (simp add: power_int_add)
    finally have "(2::real) powi ?e < 2 powi (53 + j)" .
    have "?e < 53 + j"
    proof (rule ccontr)
      assume "\<not> ?e < 53 + j"
      then have "(2::real) powi (53 + j) \<le> 2 powi ?e"
        by (intro power_int_increasing) simp_all
      with \<open>(2::real) powi ?e < 2 powi (53 + j)\<close> show False by simp
    qed
    then show ?thesis by simp
  next
    case False
    moreover have "- 1022 \<le> ?e" by (simp add: exponent_def)
    ultimately have "?e = - 1022" by simp
    with assms(2) show ?thesis by simp
  qed
  then obtain d where d: "j = (?e - 52) + int d" by (metis zle_iff_zadd)
  have "?x / 2 powi (?e - 52) = of_int n * (2 powi j / 2 powi (?e - 52))" by simp
  also have "2 powi j / (2::real) powi (?e - 52) = 2 ^ d"
    by (subst d) (simp add: power_int_add)
  finally have q: "?x / 2 powi (?e - 52) = of_int (n * 2 ^ d)" by simp
  have "double ?x = of_int (n * 2 ^ d) * 2 powi (?e - 52)"
    unfolding double_def q roundHalfEven_of_int ..
  also have "\<dots> = of_int n * (2 ^ d * 2 powi (?e - 52))" by simp
  also have "2 ^ d * (2::real) powi (?e - 52) = 2 powi j"
    by (subst d) (simp add: power_int_add)
  finally show ?thesis .
qed

lemma exponent_upper: "\<bar>x\<bar> < 2 powi (exponent x + 1)"
proof -
  define K :: real where "K = 2 powi 1074"
  have K: "0 < K" "(2::real) ^ 1074 = K" by (simp_all add: K_def)
  define m where "m = \<lfloor>\<bar>x\<bar> * 2 ^ 1074\<rfloor>"
  have e: "exponent x = max (- 1022) (bitlen m - 1075)"
    by (simp only: exponent_def m_def)
  have m0: "0 \<le> m" unfolding m_def by simp
  have b0: "0 \<le> bitlen m" by (rule bitlen_nonneg)
  have "m < 2 ^ nat (bitlen m)"
  proof (cases "0 < m")
    case True
    from bitlen_bounds [OF True] show ?thesis by simp
  next
    case False
    with m0 have "m = 0" by simp
    then show ?thesis by simp
  qed
  then have "m + 1 \<le> 2 ^ nat (bitlen m)" by simp
  then have "(of_int (m + 1) :: real) \<le> of_int (2 ^ nat (bitlen m))"
    by (simp only: of_int_le_iff)
  then have u: "(of_int m :: real) + 1 \<le> 2 ^ nat (bitlen m)" by simp
  have "\<bar>x\<bar> * K < of_int m + 1" unfolding m_def K(2) [symmetric] by linarith
  with u have "\<bar>x\<bar> * K < 2 ^ nat (bitlen m)" by simp
  then have "\<bar>x\<bar> < 2 ^ nat (bitlen m) / K" using K(1) by (simp add: pos_less_divide_eq)
  also have "(2::real) ^ nat (bitlen m) / K = 2 powi (bitlen m - 1074)"
  proof -
    from b0 obtain l where l: "bitlen m = int l" by (rule nonneg_int_cases)
    have "(2::real) powi (int l - 1074) = 2 powi int l / 2 powi 1074"
      by (rule power_int_diff) simp
    then show ?thesis by (simp only: l nat_int power_int_of_nat K_def)
  qed
  also have "\<dots> \<le> 2 powi (exponent x + 1)"
    by (rule power_int_increasing) (simp_all add: e)
  finally show ?thesis .
qed

lemma roundHalfEven_bounds: "\<lfloor>q\<rfloor> \<le> roundHalfEven q" "roundHalfEven q \<le> \<lceil>q\<rceil>"
proof -
  show "\<lfloor>q\<rfloor> \<le> roundHalfEven q" by (simp add: roundHalfEven_def)
  have "\<lfloor>q\<rfloor> + 1 \<le> \<lceil>q\<rceil>" if "q - of_int \<lfloor>q\<rfloor> \<noteq> 0"
    using that by (metis ceiling_altdef diff_eq_diff_eq diff_self order_refl)
  moreover have "\<lfloor>q\<rfloor> \<le> \<lceil>q\<rceil>" by (rule floor_le_ceiling)
  ultimately show "roundHalfEven q \<le> \<lceil>q\<rceil>" by (auto simp: roundHalfEven_def)
qed

text \<open>
  The result of the rounding is a double: a significand of at most 53 bits at an exponent
  not below that of the subnormal numbers.
\<close>

lemma double_significand:
  "\<bar>roundHalfEven (x / 2 powi (exponent x - 52))\<bar> \<le> 2 ^ 53"
proof -
  let ?q = "x / 2 powi (exponent x - 52)"
  have "\<bar>?q\<bar> = \<bar>x\<bar> / 2 powi (exponent x - 52)" by (simp add: abs_divide)
  also have "\<dots> < 2 powi (exponent x + 1) / 2 powi (exponent x - 52)"
    using exponent_upper [of x] by (simp add: divide_strict_right_mono)
  also have "\<dots> = 2 powi 53"
  proof -
    have "(2::real) powi ((exponent x + 1) - (exponent x - 52))
        = 2 powi (exponent x + 1) / 2 powi (exponent x - 52)"
      by (rule power_int_diff) simp
    then show ?thesis by simp
  qed
  finally have q: "\<bar>?q\<bar> < 2 ^ 53" by simp
  then have "?q \<le> 2 ^ 53" "- (2 ^ 53) \<le> ?q" by linarith+
  then have "?q \<le> of_int (2 ^ 53)" "of_int (- (2 ^ 53)) \<le> ?q" by simp_all
  then have "\<lceil>?q\<rceil> \<le> 2 ^ 53" "- (2 ^ 53) \<le> \<lfloor>?q\<rfloor>"
    by (simp_all only: ceiling_le_iff le_floor_iff)
  with roundHalfEven_bounds [of ?q] show ?thesis by linarith
qed

lemma double_exact_le:
  assumes "\<bar>n\<bar> \<le> 2 ^ 53" and "- 1074 \<le> j"
  shows "double (of_int n * 2 powi j) = of_int n * 2 powi j"
proof (cases "\<bar>n\<bar> < 2 ^ 53")
  case True
  then show ?thesis using assms(2) by (rule double_exact)
next
  case False
  with assms(1) have "\<bar>n\<bar> = 2 ^ 53" by simp
  then consider "n = 2 ^ 53" | "n = - (2 ^ 53)" by linarith
  then obtain k :: int where k: "n = k * 2" "\<bar>k\<bar> < 2 ^ 53"
  proof cases
    case 1
    then show ?thesis using that [of "2 ^ 52"] by simp
  next
    case 2
    then show ?thesis using that [of "- (2 ^ 52)"] by simp
  qed
  have "of_int n * (2::real) powi j = of_int k * 2 powi (j + 1)"
    by (simp add: k(1) power_int_add)
  moreover have "- 1074 \<le> j + 1" using assms(2) by simp
  ultimately show ?thesis using double_exact [OF k(2), of "j + 1"] by simp
qed

lemma double_double: "double (double x) = double x"
proof -
  have "- 1074 \<le> exponent x - 52" by (simp add: exponent_def)
  from double_exact_le [OF double_significand this] show ?thesis
    by (simp add: double_def [of x])
qed

text \<open>Doubling a double, or multiplying it by a higher power of two, is exact.\<close>

lemma isDouble_double: "isDouble (double x)"
  by (simp add: isDouble_def double_double)

lemma isDouble_scaled:
  assumes "isDouble x"
  shows "double (x * 2 ^ k) = x * 2 ^ k"
proof -
  let ?n = "roundHalfEven (x / 2 powi (exponent x - 52))"
  from assms have x: "x = of_int ?n * 2 powi (exponent x - 52)"
    by (simp add: isDouble_def double_def)
  have "x * 2 ^ k = of_int ?n * (2 powi (exponent x - 52) * 2 powi int k)"
    by (subst x) (simp only: power_int_of_nat mult.assoc)
  also have "2 powi (exponent x - 52) * (2::real) powi int k = 2 powi (exponent x - 52 + int k)"
    by (simp add: power_int_add)
  finally have e: "x * 2 ^ k = of_int ?n * 2 powi (exponent x - 52 + int k)" .
  have "- 1074 \<le> exponent x - 52 + int k" by (simp add: exponent_def)
  from double_exact_le [OF double_significand this] show ?thesis by (simp only: e)
qed

lemma double_of_int: "\<bar>n\<bar> < 2 ^ 53 \<Longrightarrow> double (of_int n) = of_int n"
  using double_exact [of n 0] by simp

lemma isDouble_half: "isDouble (1 / 2)"
  using double_exact [of 1 "- 1"] by (simp add: isDouble_def)

lemma roundHalfEven_less:
  assumes "q < of_int M - 1 / 2"
  shows "roundHalfEven q < M"
proof -
  have "q < of_int M" using assms by simp
  then have f: "\<lfloor>q\<rfloor> < M" by (simp add: floor_less_iff)
  show ?thesis
  proof (cases "\<lfloor>q\<rfloor> = M - 1")
    case True
    then have "q - of_int \<lfloor>q\<rfloor> < 1 / 2" using assms by simp
    then show ?thesis using f by (simp add: roundHalfEven_def)
  next
    case False
    with f have "\<lfloor>q\<rfloor> + 1 < M" by simp
    then show ?thesis by (simp add: roundHalfEven_def)
  qed
qed

lemma exponent_less:
  assumes "\<bar>x\<bar> < 2 powi k" and "- 1022 < k"
  shows "exponent x < k"
proof (cases "- 1022 < exponent x")
  case True
  from exponent_lower [OF True] assms(1) have "(2::real) powi exponent x < 2 powi k" by simp
  show ?thesis
  proof (rule ccontr)
    assume "\<not> exponent x < k"
    then have "(2::real) powi k \<le> 2 powi exponent x"
      by (intro power_int_increasing) simp_all
    with \<open>(2::real) powi exponent x < 2 powi k\<close> show False by simp
  qed
next
  case False
  moreover have "- 1022 \<le> exponent x" by (simp add: exponent_def)
  ultimately show ?thesis using assms(2) by simp
qed

text \<open>The largest double below 1 is \<open>1 - 2 ^ - 53\<close>.\<close>

lemma double_below_one:
  assumes "isDouble r" and "0 \<le> r" and "r < 1"
  shows "r \<le> 1 - 2 powi (- 53)"
proof -
  let ?e = "exponent r"
  let ?n = "roundHalfEven (r / 2 powi (?e - 52))"
  have "\<bar>r\<bar> < 2 powi 0" using assms(2,3) by simp
  then have e: "?e < 0" by (rule exponent_less) simp
  show ?thesis
  proof (cases "?e = - 1")
    case True
    from assms(1) have r: "r = of_int ?n * 2 powi (- 53)"
      by (simp add: isDouble_def double_def True)
    have "of_int ?n * 2 powi (- 53) < (1::real)" using r assms(3) by simp
    then have "of_int ?n < (2::real) ^ 53"
      by (simp add: power_int_minus field_simps)
    then have "of_int ?n < (of_int (2 ^ 53) :: real)" by simp
    then have "?n < 2 ^ 53" by (simp only: of_int_less_iff)
    then have "?n \<le> 2 ^ 53 - 1" by simp
    then have "(of_int ?n :: real) \<le> of_int (2 ^ 53 - 1)" by (simp only: of_int_le_iff)
    then have "(of_int ?n :: real) \<le> 2 ^ 53 - 1" by simp
    then have "of_int ?n * 2 powi (- 53) \<le> (2 ^ 53 - 1) * (2::real) powi (- 53)"
      by (intro mult_right_mono) simp_all
    also have "\<dots> = 1 - 2 powi (- 53)" by (simp add: power_int_minus field_simps)
    finally show ?thesis using r by simp
  next
    case False
    with e have "?e + 1 \<le> - 1" by simp
    then have "(2::real) powi (?e + 1) \<le> 2 powi (- 1)"
      by (intro power_int_increasing) simp_all
    with exponent_upper [of r] assms(2) have "r < 2 powi (- 1)" by simp
    then have "r < 1 / 2" by (simp add: power_int_minus)
    moreover have "(1::real) / 2 \<le> 1 - 2 powi (- 53)" by (simp add: power_int_minus)
    ultimately show ?thesis by simp
  qed
qed

text \<open>
  A result of \<^verbatim>\<open>Math.random()\<close> times 6, rounded, is below 6: the exact product is at
  least three quarters of the spacing of the doubles there below 6.
\<close>

lemma times_six_below:
  assumes "isDouble r" and "0 \<le> r" and "r < 1"
  shows "0 \<le> jsMul r 6" and "jsMul r 6 < 6"
proof -
  show "0 \<le> jsMul r 6" using assms(2) by (simp add: jsMul_def double_nonneg)
  let ?x = "r * 6"
  let ?e = "exponent ?x"
  let ?g = "(2::real) powi (?e - 52)"
  have g: "0 < ?g" by simp
  have "\<bar>?x\<bar> < 2 powi 3" using assms(2,3) by simp
  then have e: "?e < 3" by (rule exponent_less) simp
  define d where "d = nat (52 - ?e)"
  have d: "52 - ?e = int d" "50 \<le> d" using e by (simp_all add: d_def)
  have ig: "1 / ?g = 2 ^ d"
  proof -
    have "1 / ?g = 2 powi (- (?e - 52))" by (simp only: power_int_minus inverse_eq_divide)
    also have "- (?e - 52) = int d" using d(1) by simp
    finally show ?thesis by (simp only: power_int_of_nat)
  qed
  have "(2::real) ^ 50 \<le> 2 ^ d" using d(2) by (intro power_increasing) simp_all
  from double_below_one [OF assms] have "?x \<le> 6 - 6 * 2 powi (- 53)" by simp
  then have "?x * 2 ^ d \<le> (6 - 6 * 2 powi (- 53)) * 2 ^ d"
    by (intro mult_right_mono) simp_all
  also have "\<dots> = 6 * 2 ^ d - 6 * 2 powi (- 53) * 2 ^ d" by (simp add: algebra_simps)
  also have "\<dots> \<le> 6 * 2 ^ d - 6 * 2 powi (- 53) * 2 ^ 50"
    using \<open>(2::real) ^ 50 \<le> 2 ^ d\<close> by simp
  also have "\<dots> = 6 * 2 ^ d - 3 / 4" by (simp add: power_int_minus)
  finally have "?x * 2 ^ d < 6 * 2 ^ d - 1 / 2" by simp
  moreover have "?x / ?g = ?x * (1 / ?g)" by simp
  ultimately have "?x / ?g < of_int (6 * 2 ^ d) - 1 / 2" by (simp only: ig) simp
  then have "roundHalfEven (?x / ?g) < 6 * 2 ^ d" by (rule roundHalfEven_less)
  then have "(of_int (roundHalfEven (?x / ?g)) :: real) < of_int (6 * 2 ^ d)"
    by (simp only: of_int_less_iff)
  then have "of_int (roundHalfEven (?x / ?g)) * ?g < of_int (6 * 2 ^ d) * ?g"
    using g by (simp only: mult_less_cancel_right_pos)
  also have "of_int (6 * 2 ^ d) * ?g = 6 * (2 ^ d * ?g)" by simp
  also have "2 ^ d * ?g = 1" using g by (simp only: ig [symmetric]) simp
  finally show "jsMul r 6 < 6" by (simp add: jsMul_def double_def)
qed

section \<open>The orchestrator: invariants\<close>


lemmas handler_defs = clickSpin_def spinDisabled_def handleStartSpin_def handleSpinComplete_def
  handleCharitySelected_def spinAnimationComplete_def handleDonationComplete_def
  handleCloseModal_def

lemma run_snoc: "run (evs @ [e]) c = step e (run evs c)"
  by (simp add: run_def)


lemma runObserved_snoc:
  "runObserved (evs @ [e]) ch =
     (step e (fst (runObserved evs ch)),
      observe e (fst (fst (runObserved evs ch))) (snd (runObserved evs ch)))"
  by (simp add: runObserved_def split: prod.splits)

lemma fst_runObserved: "fst (runObserved evs (c, h)) = run evs c"
proof (induction evs rule: rev_induct)
  case Nil
  show ?case by (simp add: runObserved_def run_def)
next
  case (snoc e evs)
  then show ?case by (simp add: runObserved_snoc run_snoc)
qed

lemma initial_charity: "selectedCharity initial = Some (CHARITIES ! 0)"
  by (simp add: initial_def arrayGet_def CHARITIES_def)





lemma charity_present_step:
  "selectedCharity (fst cf) \<noteq> None \<Longrightarrow> selectedCharity (fst (step e cf)) \<noteq> None"
  by (cases cf; cases e) (auto simp: handler_defs)

lemma tied_initial: "tied ((initial, 0), noHistory)"
  by (simp add: tied_def initial_def noHistory_def arrayGet_def CHARITIES_def)

lemma tied_step: "tied ((s, p), h) \<Longrightarrow> tied (step e (s, p), observe e s h)"
  by (cases e) (auto simp: tied_def handler_defs)

lemma tied_run: "tied (runObserved evs ((initial, 0), noHistory))"
proof (induction evs rule: rev_induct)
  case Nil
  show ?case using tied_initial by (simp add: runObserved_def)
next
  case (snoc e evs)
  obtain s p h where eq: "runObserved evs ((initial, 0), noHistory) = ((s, p), h)"
    by (metis surj_pair)
  with snoc have "tied ((s, p), h)" by simp
  then have "tied (step e (s, p), observe e s h)" by (rule tied_step)
  then show ?case by (simp add: runObserved_snoc eq)
qed

lemma reached_tied:
  "showModal (reached evs) = (amountReported (historyOf evs) \<and> \<not> dismissed (historyOf evs))"
  "showModal (reached evs) \<longrightarrow> selectedAmount (reached evs) \<noteq> None"
  "selectedCharity (reached evs) \<noteq> None"
  "snd (run evs (initial, 0)) = (if isSpinning (reached evs) then 1 else 0)"
proof -
  obtain s p h where eq: "runObserved evs ((initial, 0), noHistory) = ((s, p), h)"
    by (metis surj_pair)
  have r: "run evs (initial, 0) = (s, p)"
    using fst_runObserved [of evs "(initial, 0)" noHistory] eq by simp
  have t: "tied ((s, p), h)" using tied_run [of evs] eq by simp
  show "showModal (reached evs) = (amountReported (historyOf evs) \<and> \<not> dismissed (historyOf evs))"
    using t by (simp add: reached_def historyOf_def eq r tied_def)
  show "showModal (reached evs) \<longrightarrow> selectedAmount (reached evs) \<noteq> None"
    using t by (simp add: reached_def r tied_def)
  show "selectedCharity (reached evs) \<noteq> None"
    using t by (simp add: reached_def r tied_def)
  show "snd (run evs (initial, 0)) = (if isSpinning (reached evs) then 1 else 0)"
    using t by (simp add: reached_def r tied_def)
qed

lemma modalRendered_iff_showModal: "modalRendered (reached evs) = showModal (reached evs)"
  using reached_tied(2,3) [of evs] by (auto simp: modalRendered_def)


text \<open>
  Claim C1, as stated, fails: the dialog is rendered as soon as the amount callback has
  been reported, whether or not the charity callback of the current spin has been. After
  a click and the amount callback alone the dialog is on screen and no charity has been
  reported for this spin.
\<close>

theorem dialog_without_charity_report_counterexample:
  "modalRendered (reached [ClickSpin, SpinComplete 1]) \<and>
   \<not> charityReported (historyOf [ClickSpin, SpinComplete 1])"
  by (simp add: reached_def historyOf_def run_def runObserved_def handler_defs initial_def
      noHistory_def modalRendered_def arrayGet_def CHARITIES_def)

text \<open>
  Claim C1, amended: in every reachable state the confirmation dialog is rendered if and
  only if the amount callback has been reported since the last spin started and the
  dialog has not been dismissed since that report; the charity callback plays no part.
\<close>

theorem dialog_rendered_iff_amount_reported:
  "modalRendered (reached evs) =
     (amountReported (historyOf evs) \<and> \<not> dismissed (historyOf evs))"
  using reached_tied(1) [of evs] modalRendered_iff_showModal [of evs] by simp

theorem dialog_rendered_iff_amount_reported_witness:
  "modalRendered (reached [ClickSpin, SpinComplete 1, TimeoutFired]) \<and>
   \<not> modalRendered (reached [ClickSpin, SpinComplete 1, TimeoutFired, CloseModal])"
  using dialog_rendered_iff_amount_reported [of "[ClickSpin, SpinComplete 1, TimeoutFired]"]
    dialog_rendered_iff_amount_reported [of "[ClickSpin, SpinComplete 1, TimeoutFired, CloseModal]"]
  by (simp add: historyOf_def runObserved_def handler_defs initial_def noHistory_def)


section \<open>The orchestrator: the transitions\<close>

text \<open>
  Claim C2, as stated, fails: \<^verbatim>\<open>handleCloseModal\<close> only lowers the dialog flag. After a
  spin, a donation receipt and the dismissal, the amount, the charity and the receipt
  are all still stored.
\<close>

theorem handleCloseModal_clears_fields_counterexample:
  "modalRendered (reached [ClickSpin, SpinComplete 1, TimeoutFired, DonationComplete ''0xab'']) \<and>
   selectedAmount (handleCloseModal
     (reached [ClickSpin, SpinComplete 1, TimeoutFired, DonationComplete ''0xab''])) = Some 1 \<and>
   selectedCharity (handleCloseModal
     (reached [ClickSpin, SpinComplete 1, TimeoutFired, DonationComplete ''0xab''])) =
       Some (CHARITIES ! 0) \<and>
   txHash (handleCloseModal
     (reached [ClickSpin, SpinComplete 1, TimeoutFired, DonationComplete ''0xab''])) = Some ''0xab''"
  by (simp add: reached_def run_def handler_defs initial_def modalRendered_def arrayGet_def
      CHARITIES_def)

text \<open>
  Claim C2, amended: dismissing the dialog lowers the dialog flag and nothing else. The
  dialog is no longer rendered; the spinning flag, the selected amount, the selected
  charity and the receipt identifier are what they were, so the spin button is enabled
  exactly when the spinning flag is off; the amount and the receipt are cleared by the
  next spin that starts, the charity is not.
\<close>

theorem handleCloseModal_hides_only:
  "handleCloseModal s = s\<lparr> showModal := False \<rparr> \<and>
   \<not> modalRendered (handleCloseModal s) \<and>
   isSpinning (handleCloseModal s) = isSpinning s \<and>
   selectedAmount (handleCloseModal s) = selectedAmount s \<and>
   selectedCharity (handleCloseModal s) = selectedCharity s \<and>
   txHash (handleCloseModal s) = txHash s \<and>
   spinDisabled (handleCloseModal s) = isSpinning s \<and>
   (\<not> isSpinning s \<longrightarrow>
      selectedAmount (fst (clickSpin (handleCloseModal s))) = None \<and>
      txHash (fst (clickSpin (handleCloseModal s))) = None \<and>
      selectedCharity (fst (clickSpin (handleCloseModal s))) = selectedCharity s)"
  by (simp add: handler_defs modalRendered_def)

theorem handleCloseModal_hides_only_witness:
  "\<not> isSpinning (reached [ClickSpin, SpinComplete 1, TimeoutFired, DonationComplete ''0xab'']) \<and>
   txHash (handleCloseModal
     (reached [ClickSpin, SpinComplete 1, TimeoutFired, DonationComplete ''0xab''])) = Some ''0xab'' \<and>
   txHash (fst (clickSpin (handleCloseModal
     (reached [ClickSpin, SpinComplete 1, TimeoutFired, DonationComplete ''0xab''])))) = None"
proof -
  let ?s = "reached [ClickSpin, SpinComplete 1, TimeoutFired, DonationComplete ''0xab'']"
  have h: "\<not> isSpinning ?s"
    by (simp add: reached_def run_def handler_defs initial_def)
  have t: "txHash ?s = Some ''0xab''"
    by (simp add: reached_def run_def handler_defs initial_def)
  note th = handleCloseModal_hides_only [of ?s]
  from th have a: "txHash (handleCloseModal ?s) = txHash ?s" by blast
  from th h have b: "txHash (fst (clickSpin (handleCloseModal ?s))) = None" by blast
  show ?thesis using h t a b by simp
qed

text \<open>
  Claim C3, as stated, fails for the charity: a spin that starts after an earlier spin
  chose the fourth charity still holds that charity.
\<close>

theorem startSpin_clears_charity_counterexample:
  "\<not> spinDisabled (reached [ClickSpin, SpinComplete 1, CharitySelected (CHARITIES ! 3),
       TimeoutFired, CloseModal]) \<and>
   selectedCharity (fst (clickSpin (reached [ClickSpin, SpinComplete 1,
       CharitySelected (CHARITIES ! 3), TimeoutFired, CloseModal]))) = Some (CHARITIES ! 3)"
  by (simp add: reached_def run_def handler_defs initial_def)

text \<open>
  Claim C3, amended: from every state in which the spin button is enabled, a click runs
  \<^verbatim>\<open>handleStartSpin\<close>, which clears the selected amount and the receipt identifier,
  lowers the dialog flag, raises the spinning flag and schedules one timeout of 4000 ms;
  the selected charity is left as it was.
\<close>

theorem startSpin_resets:
  assumes "\<not> spinDisabled s"
  shows "clickSpin s = handleStartSpin s \<and>
    handleStartSpin s =
      (s\<lparr> isSpinning := True, selectedAmount := None, txHash := None, showModal := False \<rparr>,
       [4000]) \<and>
    isSpinning (fst (clickSpin s)) \<and>
    selectedAmount (fst (clickSpin s)) = None \<and>
    txHash (fst (clickSpin s)) = None \<and>
    \<not> showModal (fst (clickSpin s)) \<and>
    selectedCharity (fst (clickSpin s)) = selectedCharity s"
  using assms by (simp add: handler_defs)

theorem startSpin_resets_witness:
  "\<not> spinDisabled (reached [ClickSpin, SpinComplete 1, CharitySelected (CHARITIES ! 3),
       TimeoutFired, DonationComplete ''0xab'', CloseModal]) \<and>
   selectedAmount (reached [ClickSpin, SpinComplete 1, CharitySelected (CHARITIES ! 3),
       TimeoutFired, DonationComplete ''0xab'', CloseModal]) = Some 1 \<and>
   selectedAmount (fst (clickSpin (reached [ClickSpin, SpinComplete 1,
       CharitySelected (CHARITIES ! 3), TimeoutFired, DonationComplete ''0xab'', CloseModal]))) = None \<and>
   txHash (fst (clickSpin (reached [ClickSpin, SpinComplete 1,
       CharitySelected (CHARITIES ! 3), TimeoutFired, DonationComplete ''0xab'', CloseModal]))) = None \<and>
   isSpinning (fst (clickSpin (reached [ClickSpin, SpinComplete 1,
       CharitySelected (CHARITIES ! 3), TimeoutFired, DonationComplete ''0xab'', CloseModal])))"
proof -
  let ?s = "reached [ClickSpin, SpinComplete 1, CharitySelected (CHARITIES ! 3),
       TimeoutFired, DonationComplete ''0xab'', CloseModal]"
  have h: "\<not> spinDisabled ?s"
    by (simp add: reached_def run_def handler_defs initial_def)
  have a: "selectedAmount ?s = Some 1"
    by (simp add: reached_def run_def handler_defs initial_def)
  show ?thesis using h a startSpin_resets [OF h] by simp
qed

text \<open>
  Claim C4: while the spinning flag is up or the dialog flag is up the spin button is
  disabled, so a click changes nothing: the state is the same, no timeout is scheduled,
  and the configuration of the transition system is unchanged. While the spinning flag
  is up \<^verbatim>\<open>handleStartSpin\<close> itself returns at its guard.
\<close>

theorem clickSpin_rejected_noop:
  assumes "isSpinning s \<or> showModal s"
  shows "clickSpin s = (s, []) \<and> step ClickSpin (s, p) = (s, p) \<and>
    (isSpinning s \<longrightarrow> handleStartSpin s = (s, []))"
  using assms by (auto simp: handler_defs)

theorem clickSpin_rejected_noop_witness:
  "isSpinning (reached [ClickSpin]) \<and>
   clickSpin (reached [ClickSpin]) = (reached [ClickSpin], []) \<and>
   reached [ClickSpin, ClickSpin] = reached [ClickSpin]"
proof -
  have h: "isSpinning (reached [ClickSpin])"
    by (simp add: reached_def run_def handler_defs initial_def)
  have r: "run [ClickSpin, ClickSpin] (initial, 0) = step ClickSpin (reached [ClickSpin], 1)"
    by (simp add: reached_def run_def handler_defs initial_def)
  show ?thesis
    using h r clickSpin_rejected_noop [of "reached [ClickSpin]" 1] by (simp add: reached_def)
qed

section \<open>The donation attempt\<close>

lemma toString16_digit: "n < 16 \<Longrightarrow> toString16 n = [hexDigits ! n]"
  by (subst toString16.simps) simp

lemma hexDigit_in: "n < 16 \<Longrightarrow> hexDigits ! n \<in> set hexDigits"
  by (rule nth_mem) (simp add: hexDigits_def)

text \<open>
  A result of \<^verbatim>\<open>Math.random()\<close> times 16 is exact, and its integer part is a single
  hexadecimal digit.
\<close>

lemma floor16:
  assumes "isDouble r" and "0 \<le> r" and "r < 1"
  shows "jsMul r 16 = r * 16" and "nat \<lfloor>r * 16\<rfloor> < 16"
proof -
  from isDouble_scaled [OF assms(1), of 4] show "jsMul r 16 = r * 16"
    by (simp add: jsMul_def)
  have "r * 16 < 16" using assms(3) by simp
  then have "\<lfloor>r * 16\<rfloor> < 16" by (simp add: floor_less_iff)
  moreover have "0 \<le> \<lfloor>r * 16\<rfloor>" using assms(2) by simp
  ultimately show "nat \<lfloor>r * 16\<rfloor> < 16" by linarith
qed

lemma concat_singletons:
  assumes "\<forall>x\<in>set xs. f x = [g x]"
  shows "concat (map f xs) = map g xs"
  using assms by (induction xs) simp_all

lemma hash_digits:
  fixes rnd :: "nat \<Rightarrow> real"
  assumes "\<forall>i<64. isDouble (rnd i) \<and> 0 \<le> rnd i \<and> rnd i < 1"
  shows "concat (map (\<lambda>i. toString16 (nat \<lfloor>jsMul (rnd i) 16\<rfloor>)) [0..<64]) =
           map (\<lambda>i. hexDigits ! nat \<lfloor>rnd i * 16\<rfloor>) [0..<64]"
    and "set (map (\<lambda>i. hexDigits ! nat \<lfloor>rnd i * 16\<rfloor>) [0..<64]) \<subseteq> set hexDigits"
proof -
  have d: "\<forall>i\<in>set [0..<64]. toString16 (nat \<lfloor>jsMul (rnd i) 16\<rfloor>) =
      [hexDigits ! nat \<lfloor>rnd i * 16\<rfloor>]"
    using assms floor16 by (simp add: toString16_digit)
  then show "concat (map (\<lambda>i. toString16 (nat \<lfloor>jsMul (rnd i) 16\<rfloor>)) [0..<64]) =
           map (\<lambda>i. hexDigits ! nat \<lfloor>rnd i * 16\<rfloor>) [0..<64]"
    by (rule concat_singletons)
  have "\<forall>i\<in>set [0..<64]. hexDigits ! nat \<lfloor>rnd i * 16\<rfloor> \<in> set hexDigits"
    using assms floor16(2) hexDigit_in by simp
  then show "set (map (\<lambda>i. hexDigits ! nat \<lfloor>rnd i * 16\<rfloor>) [0..<64]) \<subseteq> set hexDigits"
    by auto
qed

lemma sendDonation_hash:
  fixes rnd :: "nat \<Rightarrow> real"
  assumes "\<forall>i<64. isDouble (rnd i) \<and> 0 \<le> rnd i \<and> rnd i < 1"
  shows "sendDonation rnd walletId recipientAddress amount =
           Resolved \<lparr> success = True,
             result_txHash = Some (''0x'' @ map (\<lambda>i. hexDigits ! nat \<lfloor>rnd i * 16\<rfloor>) [0..<64]),
             result_error = None \<rparr>"
  using hash_digits(1) [OF assms] by (simp add: sendDonation_def)

lemma attempt_resolved:
  assumes "submit walletId (walletAddress (modalCharity d)) amount =
      Resolved \<lparr> success = True, result_txHash = Some (c # cs), result_error = e \<rparr>"
  shows "attemptDonation submit amount walletId (s, d) =
      (s\<lparr> txHash := Some (c # cs) \<rparr>, d\<lparr> isProcessing := False, error := None \<rparr>)"
  using assms
  by (simp add: attemptDonation_def handleDonateWithWallet_def donateStart_def donateSettle_def
      truthy_def handleDonationComplete_def)

text \<open>
  Claim C8: every call of \<^verbatim>\<open>sendDonation\<close> resolves with \<^verbatim>\<open>success = true\<close> and no
  error, never with the failure branch. With the 64 results of \<^verbatim>\<open>Math.random()\<close> doubles
  from 0 (included) to 1 (excluded), its \<^verbatim>\<open>txHash\<close> is the prefix \<^verbatim>\<open>0x\<close> followed by 64
  hexadecimal characters, the character at position \<open>i\<close> being the digit of the integer
  part of 16 times the \<open>i\<close>-th result. When the promise resolves, in whatever state \<open>d'\<close>
  the dialog and \<open>s'\<close> the root view are by then, the dialog makes one call of
  \<^verbatim>\<open>onDonationComplete\<close>, with this identifier, \<^verbatim>\<open>handleDonationComplete\<close> stores it as the
  receipt, and a dialog rendered with this receipt, in whatever state \<open>d''\<close>, shows the
  completed view with the identifier; the receipt neither opens nor closes the dialog, so
  a dialog dismissed in the meantime stays closed. With nothing between the click on the
  wallet and the resolution, that is the result of the attempt.
\<close>

theorem sendDonation_always_succeeds:
  fixes rnd :: "nat \<Rightarrow> real"
  shows "(\<exists>r. sendDonation rnd walletId recipientAddress amount = Resolved r \<and> success r \<and>
            result_error r = None) \<and>
    ((\<forall>i<64. isDouble (rnd i) \<and> 0 \<le> rnd i \<and> rnd i < 1) \<longrightarrow>
       sendDonation rnd walletId recipientAddress amount =
         Resolved \<lparr> success = True,
           result_txHash = Some (''0x'' @ map (\<lambda>i. hexDigits ! nat \<lfloor>rnd i * 16\<rfloor>) [0..<64]),
           result_error = None \<rparr> \<and>
       length (map (\<lambda>i. hexDigits ! nat \<lfloor>rnd i * 16\<rfloor>) [0..<64]) = 64 \<and>
       set (map (\<lambda>i. hexDigits ! nat \<lfloor>rnd i * 16\<rfloor>) [0..<64]) \<subseteq> set hexDigits \<and>
       donateSettle (sendDonation rnd walletId recipientAddress amount) d' =
         (d'\<lparr> isProcessing := False \<rparr>,
          [''0x'' @ map (\<lambda>i. hexDigits ! nat \<lfloor>rnd i * 16\<rfloor>) [0..<64]]) \<and>
       txHash (handleDonationComplete
           (''0x'' @ map (\<lambda>i. hexDigits ! nat \<lfloor>rnd i * 16\<rfloor>) [0..<64]) s') =
         Some (''0x'' @ map (\<lambda>i. hexDigits ! nat \<lfloor>rnd i * 16\<rfloor>) [0..<64]) \<and>
       modalView (txHash (handleDonationComplete
           (''0x'' @ map (\<lambda>i. hexDigits ! nat \<lfloor>rnd i * 16\<rfloor>) [0..<64]) s')) d'' =
         CompleteView (''0x'' @ map (\<lambda>i. hexDigits ! nat \<lfloor>rnd i * 16\<rfloor>) [0..<64]) \<and>
       modalRendered (handleDonationComplete
           (''0x'' @ map (\<lambda>i. hexDigits ! nat \<lfloor>rnd i * 16\<rfloor>) [0..<64]) s') =
         modalRendered s' \<and>
       attemptDonation (sendDonation rnd) amount walletId (s, d) =
         (s\<lparr> txHash := Some (''0x'' @ map (\<lambda>i. hexDigits ! nat \<lfloor>rnd i * 16\<rfloor>) [0..<64]) \<rparr>,
          d\<lparr> isProcessing := False, error := None \<rparr>))"
proof (intro conjI impI)
  show "\<exists>r. sendDonation rnd walletId recipientAddress amount = Resolved r \<and> success r \<and>
            result_error r = None"
    by (simp add: sendDonation_def)
next
  assume a: "\<forall>i<64. isDouble (rnd i) \<and> 0 \<le> rnd i \<and> rnd i < 1"
  let ?hash = "''0x'' @ map (\<lambda>i. hexDigits ! nat \<lfloor>rnd i * 16\<rfloor>) [0..<64]"
  note eq = sendDonation_hash [OF a]
  show "sendDonation rnd walletId recipientAddress amount =
         Resolved \<lparr> success = True, result_txHash = Some ?hash, result_error = None \<rparr>"
    by (rule eq)
  show "length (map (\<lambda>i. hexDigits ! nat \<lfloor>rnd i * 16\<rfloor>) [0..<64]) = 64" by simp
  show "set (map (\<lambda>i. hexDigits ! nat \<lfloor>rnd i * 16\<rfloor>) [0..<64]) \<subseteq> set hexDigits"
    by (rule hash_digits(2) [OF a])
  show "donateSettle (sendDonation rnd walletId recipientAddress amount) d' =
         (d'\<lparr> isProcessing := False \<rparr>, [?hash])"
    by (simp add: eq donateSettle_def truthy_def)
  show "txHash (handleDonationComplete ?hash s') = Some ?hash"
    by (simp add: handleDonationComplete_def)
  show "modalView (txHash (handleDonationComplete ?hash s')) d'' = CompleteView ?hash"
    by (simp add: handleDonationComplete_def modalView_def truthy_def)
  show "modalRendered (handleDonationComplete ?hash s') = modalRendered s'"
    by (simp add: handleDonationComplete_def modalRendered_def)
  show "attemptDonation (sendDonation rnd) amount walletId (s, d) =
         (s\<lparr> txHash := Some ?hash \<rparr>, d\<lparr> isProcessing := False, error := None \<rparr>)"
    using attempt_resolved [of "sendDonation rnd" walletId d amount "CHR ''0''"
        "CHR ''x'' # map (\<lambda>i. hexDigits ! nat \<lfloor>rnd i * 16\<rfloor>) [0..<64]" None s] eq
    by simp
qed

lemma constant_digits: "map (\<lambda>i. c) [0..<n] = replicate n c"
  by (simp add: map_replicate_const)

theorem sendDonation_always_succeeds_witness:
  "sendDonation (\<lambda>i. 1 / 2) ''metamask'' ''0x1234567890123456789012345678901234567890'' 1 =
     Resolved \<lparr> success = True, result_txHash = Some (''0x'' @ replicate 64 (CHR ''8'')),
                result_error = None \<rparr> \<and>
   donateSettle
       (sendDonation (\<lambda>i. 1 / 2) ''metamask'' ''0x1234567890123456789012345678901234567890'' 1)
       (donateStart (mountModal (CHARITIES ! 0))) =
     ((mountModal (CHARITIES ! 0))\<lparr> isProcessing := False, error := None \<rparr>,
      [''0x'' @ replicate 64 (CHR ''8'')]) \<and>
   modalView (txHash (handleDonationComplete (''0x'' @ replicate 64 (CHR ''8''))
       (reached [ClickSpin, SpinComplete 1])))
     ((mountModal (CHARITIES ! 0))\<lparr> isProcessing := False, error := None \<rparr>) =
     CompleteView (''0x'' @ replicate 64 (CHR ''8''))"
proof -
  have h: "\<forall>i<64::nat. isDouble ((\<lambda>i. 1 / 2) i) \<and> (0::real) \<le> (\<lambda>i. 1 / 2) i \<and>
      (\<lambda>i. 1 / 2) i < (1::real)"
    using isDouble_half by simp
  have e: "hexDigits ! nat \<lfloor>(1 / 2 :: real) * 16\<rfloor> = CHR ''8''"
    by (simp add: hexDigits_def)
  note th = sendDonation_always_succeeds [of "\<lambda>i. 1 / 2" "''metamask''"
      "''0x1234567890123456789012345678901234567890''" 1
      "donateStart (mountModal (CHARITIES ! 0))" "reached [ClickSpin, SpinComplete 1]"
      "(mountModal (CHARITIES ! 0))\<lparr> isProcessing := False, error := None \<rparr>"]
  from th h have a: "sendDonation (\<lambda>i. 1 / 2) ''metamask''
        ''0x1234567890123456789012345678901234567890'' 1 =
      Resolved \<lparr> success = True, result_txHash = Some (''0x'' @ replicate 64 (CHR ''8'')),
                 result_error = None \<rparr>"
    unfolding e constant_digits by blast
  from th h have b: "donateSettle
       (sendDonation (\<lambda>i. 1 / 2) ''metamask'' ''0x1234567890123456789012345678901234567890'' 1)
       (donateStart (mountModal (CHARITIES ! 0))) =
     ((donateStart (mountModal (CHARITIES ! 0)))\<lparr> isProcessing := False \<rparr>,
      [''0x'' @ replicate 64 (CHR ''8'')])"
    unfolding e constant_digits by blast
  from th h have c: "modalView (txHash (handleDonationComplete (''0x'' @ replicate 64 (CHR ''8''))
       (reached [ClickSpin, SpinComplete 1])))
     ((mountModal (CHARITIES ! 0))\<lparr> isProcessing := False, error := None \<rparr>) =
     CompleteView (''0x'' @ replicate 64 (CHR ''8''))"
    unfolding e constant_digits by blast
  have d: "(donateStart (mountModal (CHARITIES ! 0)))\<lparr> isProcessing := False \<rparr> =
      (mountModal (CHARITIES ! 0))\<lparr> isProcessing := False, error := None \<rparr>"
    by (simp add: donateStart_def mountModal_def)
  show ?thesis using a b c d by simp
qed

text \<open>
  A failed attempt: the collaborator rejects, or resolves without success. No completion
  callback is made and the state of the root view is unchanged; an error message is
  stored, it is displayed with the Try Again button when it is not empty, and Try Again
  shows the wallet list without submitting again.
\<close>

lemma failed_attempt:
  assumes "submit walletId (walletAddress (modalCharity d)) amount = settled"
    and "case settled of Rejected err \<Rightarrow> True | Resolved r \<Rightarrow> \<not> success r"
  shows "\<exists>msg. attemptDonation submit amount walletId (s, d) =
           (s, d\<lparr> error := Some msg, isProcessing := False \<rparr>) \<and>
         snd (handleDonateWithWallet submit amount walletId d) = [] \<and>
         (msg \<noteq> [] \<longrightarrow>
            modalView None (d\<lparr> error := Some msg, isProcessing := False \<rparr>) = ErrorView msg) \<and>
         modalView None (tryAgain (d\<lparr> error := Some msg, isProcessing := False \<rparr>)) =
           WalletListView (availableWallets d)"
  using assms
  by (cases settled)
     (auto simp: attemptDonation_def handleDonateWithWallet_def donateStart_def donateSettle_def
        modalView_def tryAgain_def truthy_def)

text \<open>
  Claim C9 at a rejection with an \<^verbatim>\<open>Error\<close> whose message is the empty string: the
  message stored is empty, the render tests it for truthiness, and the dialog shows the
  wallet list with neither a message nor a Try Again button.
\<close>

theorem rejection_with_empty_message_shows_wallet_list:
  "handleDonateWithWallet (\<lambda>walletId recipientAddress amount. Rejected (ErrorObject []))
     1 ''metamask'' (mountModal (CHARITIES ! 0)) =
     ((mountModal (CHARITIES ! 0))\<lparr> error := Some [] \<rparr>, []) \<and>
   modalView None ((mountModal (CHARITIES ! 0))\<lparr> error := Some [] \<rparr>) =
     WalletListView wallets"
  by (simp add: handleDonateWithWallet_def donateStart_def donateSettle_def modalView_def
      truthy_def mountModal_def)

section \<open>The amount selector\<close>

lemma advance_Suc: "advance fire (Suc n) bw = tick fire (advance fire n bw)"
  by (simp add: advance_def)

lemma advance_0: "advance fire 0 bw = bw"
  by (simp add: advance_def)

lemma advance_add: "advance fire (m + n) bw = advance fire n (advance fire m bw)"
  unfolding advance_def using funpow_add [of n m "tick fire"] by (simp add: add.commute)

lemma tick_now: "timers (fst bw) = [] \<Longrightarrow> tick fire bw = ((fst bw)\<lparr> now := now (fst bw) + 1 \<rparr>, snd bw)"
  by (simp add: tick_def Let_def)

lemma tick_spinning:
  assumes "spinningUntil t seg seen bw"
  shows "if now (fst bw) + 1 < t then spinningUntil t seg seen (tick spinnerRigFire bw)
         else revealed seg seen (tick spinnerRigFire bw)"
proof -
  obtain b sp calls where bw: "bw = (b, sp, calls)" by (metis surj_pair)
  from assms obtain i d where td: "timers b = [i, d]"
    by (auto simp: spinningUntil_def bw split: list.splits)
  from assms td have f: "calls = seen" "now b < t" "period i = Some 100"
    "callback i = SpinIntervalTick" "now b < due i" "period d = None"
    "callback d = SpinTimeoutDone seg" "due d = t" "handle i \<noteq> handle d"
    "spinIntervalRef sp = Some (handle i)" "spinTimeoutRef sp = Some (handle d)"
    by (simp_all add: spinningUntil_def bw)
  show ?thesis
    using f td
    by (auto simp: bw tick_def Let_def fireTimer_def spinnerRigFire_def spinnerFire_def
        spinningUntil_def revealed_def clearTimer_def)
qed

lemma tick_revealed: "revealed seg seen bw \<Longrightarrow> revealed seg seen (tick fire bw)"
  by (simp add: revealed_def tick_now)

lemma advance_revealed: "revealed seg seen bw \<Longrightarrow> revealed seg seen (advance fire n bw)"
  by (induction n) (simp_all add: advance_0 advance_Suc tick_revealed)

lemma tick_clock: "spinningUntil t seg seen bw \<Longrightarrow> now (fst (tick spinnerRigFire bw)) = now (fst bw) + 1"
proof -
  assume a: "spinningUntil t seg seen bw"
  obtain b sp calls where bw: "bw = (b, sp, calls)" by (metis surj_pair)
  from a obtain i d where td: "timers b = [i, d]"
    by (auto simp: spinningUntil_def bw split: list.splits)
  show ?thesis using a td
    by (auto simp: bw tick_def Let_def fireTimer_def spinnerRigFire_def spinnerFire_def
        spinningUntil_def clearTimer_def)
qed

lemma advance_spinning:
  assumes "spinningUntil t seg seen bw" and "now (fst bw) + n < t"
  shows "spinningUntil t seg seen (advance spinnerRigFire n bw) \<and>
         now (fst (advance spinnerRigFire n bw)) = now (fst bw) + n"
  using assms(2)
proof (induction n)
  case 0
  show ?case using assms(1) by (simp add: advance_0)
next
  case (Suc n)
  then have ih: "spinningUntil t seg seen (advance spinnerRigFire n bw)"
    and clock: "now (fst (advance spinnerRigFire n bw)) = now (fst bw) + n"
    by simp_all
  from Suc.prems clock have "now (fst (advance spinnerRigFire n bw)) + 1 < t" by simp
  with tick_spinning [OF ih] tick_clock [OF ih] clock
  show ?case by (simp add: advance_Suc)
qed

lemma advance_reveals:
  assumes "spinningUntil t seg seen bw" and "t \<le> now (fst bw) + n"
  shows "revealed seg seen (advance spinnerRigFire n bw)"
proof -
  from assms(1) have lt: "now (fst bw) < t" by (simp add: spinningUntil_def)
  define k where "k = t - now (fst bw) - 1"
  from lt have kt: "now (fst bw) + k < t" and k1: "now (fst bw) + k + 1 = t"
    by (simp_all add: k_def)
  from assms(2) k1 have "k + 1 \<le> n" by simp
  then obtain m where n: "n = (k + 1) + m" using le_Suc_ex by blast
  from advance_spinning [OF assms(1) kt]
  have s: "spinningUntil t seg seen (advance spinnerRigFire k bw)"
    and c: "now (fst (advance spinnerRigFire k bw)) = now (fst bw) + k" by simp_all
  from tick_spinning [OF s] c k1
  have "revealed seg seen (tick spinnerRigFire (advance spinnerRigFire k bw))" by simp
  then have "revealed seg seen (advance spinnerRigFire (k + 1) bw)"
    by (simp add: advance_Suc)
  then have "revealed seg seen (advance spinnerRigFire m (advance spinnerRigFire (k + 1) bw))"
    by (rule advance_revealed)
  then show ?thesis by (simp only: n advance_add)
qed

lemma cleanup_owned:
  assumes "spinnerOwns bs"
  shows "timers (fst (spinnerCleanup bs)) = []"
    and "spinIntervalRef (snd (spinnerCleanup bs)) = None"
    and "spinTimeoutRef (snd (spinnerCleanup bs)) = None"
    and "now (fst (spinnerCleanup bs)) = now (fst bs)"
    and "nextHandle (fst (spinnerCleanup bs)) = nextHandle (fst bs)"
  using assms
  by (auto simp: spinnerOwns_def spinnerCleanup_def clearTimer_def filter_empty_conv
      split: option.splits)

lemma cleanup_twice: "spinnerCleanup (spinnerCleanup bs) = spinnerCleanup bs"
  by (simp add: spinnerCleanup_def clearTimer_def)

lemma update_starts:
  assumes "spinnerOwns (b, sp)"
  shows "spinningUntil (now b + 3900) (selectedSegment (newRotation 0 r1 r2)) seen
           (spinnerRigUpdate True r1 r2 (b, sp, seen))"
    and "now (fst (spinnerRigUpdate True r1 r2 (b, sp, seen))) = now b"
proof -
  obtain b' sp' where c: "spinnerCleanup (b, sp) = (b', sp')" by (metis surj_pair)
  from cleanup_owned [OF assms] c have e: "timers b' = []" "now b' = now b" by simp_all
  from cleanup_twice [of "(b, sp)"] c have c2: "spinnerCleanup (b', sp') = (b', sp')" by simp
  show "spinningUntil (now b + 3900) (selectedSegment (newRotation 0 r1 r2)) seen
           (spinnerRigUpdate True r1 r2 (b, sp, seen))"
    using e
    by (simp add: spinnerRigUpdate_def spinnerUpdate_def spinnerEffect_def c c2
        setInterval_def setTimeout_def Let_def spinningUntil_def)
  show "now (fst (spinnerRigUpdate True r1 r2 (b, sp, seen))) = now b"
    using e
    by (simp add: spinnerRigUpdate_def spinnerUpdate_def spinnerEffect_def c c2
        setInterval_def setTimeout_def Let_def)
qed

lemma update_stops:
  assumes "spinnerOwns (b, sp)"
  shows "timers (fst (spinnerRigUpdate False r1 r2 (b, sp, seen))) = []"
    and "snd (snd (spinnerRigUpdate False r1 r2 (b, sp, seen))) = seen"
  using cleanup_owned(1) [OF assms]
  by (auto simp: spinnerRigUpdate_def spinnerUpdate_def spinnerEffect_def cleanup_twice
      split: prod.splits)

lemma unmount_stops:
  assumes "spinnerOwns (b, sp)"
  shows "timers (fst (spinnerRigUnmount (b, sp, seen))) = []"
    and "snd (snd (spinnerRigUnmount (b, sp, seen))) = seen"
  using cleanup_owned(1) [OF assms]
  by (auto simp: spinnerRigUnmount_def cleanup_twice split: prod.splits)

lemma spinning_owned: "spinningUntil t seg seen bw \<Longrightarrow> spinnerOwns (fst bw, fst (snd bw))"
  by (auto simp: spinningUntil_def spinnerOwns_def split: list.splits)

lemma revealed_owned: "revealed seg seen bw \<Longrightarrow> spinnerOwns (fst bw, fst (snd bw))"
  by (simp add: revealed_def spinnerOwns_def)

lemma quiet: "timers (fst bw) = [] \<Longrightarrow> snd (advance fire n bw) = snd bw \<and> timers (fst (advance fire n bw)) = []"
  by (induction n) (simp_all add: advance_0 advance_Suc tick_now)

lemma segment_constants: "segmentCount = 8" "segmentAngle = 45" "length segments = 8"
proof -
  show c: "segmentCount = 8" and "length segments = 8"
    by (simp_all add: segmentCount_def segments_def DONATION_AMOUNTS_def)
  have "double (of_int 45) = of_int 45" by (rule double_of_int) simp
  then show "segmentAngle = 45" by (simp add: segmentAngle_def jsDiv_def c)
qed

lemma js_nonneg:
  assumes "0 \<le> x" and "0 \<le> y"
  shows "0 \<le> jsAdd x y" and "0 \<le> jsMul x y" and "0 \<le> jsDiv x y"
  using assms by (simp_all add: jsAdd_def jsMul_def jsDiv_def double_nonneg)

lemma jsRemainder_nonneg:
  assumes "0 \<le> x" and "0 < m"
  shows "jsRemainder x m = x - m * of_int \<lfloor>x / m\<rfloor>"
    and "0 \<le> jsRemainder x m" and "jsRemainder x m < m"
proof -
  from assms have q: "0 \<le> x / m" by simp
  then show eq: "jsRemainder x m = x - m * of_int \<lfloor>x / m\<rfloor>"
    by (simp add: jsRemainder_def)
  have "of_int \<lfloor>x / m\<rfloor> \<le> x / m" by simp
  then have "m * of_int \<lfloor>x / m\<rfloor> \<le> m * (x / m)"
    using assms(2) by (intro mult_left_mono) simp_all
  then have "m * of_int \<lfloor>x / m\<rfloor> \<le> x"
    using assms(2) by simp
  then show "0 \<le> jsRemainder x m" by (simp add: eq)
  have "x / m < of_int \<lfloor>x / m\<rfloor> + 1" by linarith
  then have "m * (x / m) < m * (of_int \<lfloor>x / m\<rfloor> + 1)"
    using assms(2) by (intro mult_strict_left_mono) simp_all
  then have "x < m * (of_int \<lfloor>x / m\<rfloor> + 1)"
    using assms(2) by simp
  then show "jsRemainder x m < m" by (simp add: eq algebra_simps)
qed

lemma jsRemainder_nat: "jsRemainder (real k) 8 = real (k mod 8)"
proof -
  have "\<lfloor>real k / real (8::nat)\<rfloor> = int (k div 8)" by (rule floor_divide_of_nat_eq)
  then have f: "\<lfloor>real k / 8\<rfloor> = int (k div 8)" by simp
  have "real (8 * (k div 8) + k mod 8) = 8 * real (k div 8) + real (k mod 8)"
    by (simp only: of_nat_add of_nat_mult of_nat_numeral)
  then have "real k - 8 * real (k div 8) = real (k mod 8)" by simp
  then show ?thesis by (simp add: jsRemainder_def f)
qed

text \<open>
  The segment read for a rotation that is not negative: the rotation reduced modulo 360,
  divided by the segment angle 45 and rounded down, is a natural number, and the segment is
  the amount at that number modulo 8.
\<close>

lemma landed_index:
  assumes "0 \<le> rotation"
  shows "landedSegmentIndex rotation = real (nat \<lfloor>jsDiv (jsRemainder rotation 360) 45\<rfloor>)"
proof -
  have "0 \<le> jsRemainder rotation 360"
    using jsRemainder_nonneg(2) [OF assms, of 360] by simp
  then have "0 \<le> jsDiv (jsRemainder rotation 360) 45" by (intro js_nonneg) simp_all
  then have "0 \<le> \<lfloor>jsDiv (jsRemainder rotation 360) 45\<rfloor>" by simp
  then show ?thesis by (simp add: landedSegmentIndex_def segment_constants Let_def)
qed

lemma selectedSegment_listed:
  assumes "0 \<le> rotation"
  shows "\<exists>k<8. selectedSegment rotation = Some (DONATION_AMOUNTS ! k) \<and>
           k = nat \<lfloor>jsDiv (jsRemainder rotation 360) 45\<rfloor> mod 8"
proof -
  let ?i = "nat \<lfloor>jsDiv (jsRemainder rotation 360) 45\<rfloor>"
  have k: "?i mod 8 < 8" by simp
  have "selectedSegment rotation = arrayAt segments (real (?i mod 8))"
    by (simp only: selectedSegment_def landed_index [OF assms] segment_constants
        jsRemainder_nat)
  also have "\<dots> = Some (DONATION_AMOUNTS ! (?i mod 8))"
    using k by (simp add: arrayAt_def segment_constants(3) segments_def [symmetric])
  finally show ?thesis using k by blast
qed

lemma newRotation_formula:
  "newRotation 0 r1 r2 =
     jsAdd (jsMul (jsAdd 5 (jsMul r1 5)) 360) (jsMul (of_int \<lfloor>jsMul r2 8\<rfloor>) 45)"
  by (simp add: newRotation_def segment_constants Let_def jsAdd_def jsMul_def double_double)

lemma newRotation_nonneg:
  assumes "0 \<le> r1" and "0 \<le> r2"
  shows "0 \<le> newRotation 0 r1 r2"
  using assms by (simp add: newRotation_formula js_nonneg)

lemma amounts_table:
  "length DONATION_AMOUNTS = 8 \<and> distinct DONATION_AMOUNTS \<and>
   set DONATION_AMOUNTS = {0.05, 0.10, 0.25, 0.50, 1.00, 2.00, 5.00, 10.00}"
  by (simp add: DONATION_AMOUNTS_def)

lemma spinner_cycle:
  assumes "spinnerOwns (b, sp)"
  shows "if n < 3900
         then spinningUntil (now b + 3900) (selectedSegment (newRotation 0 r1 r2)) seen
                (advance spinnerRigFire n (spinnerRigUpdate True r1 r2 (b, sp, seen)))
         else revealed (selectedSegment (newRotation 0 r1 r2)) seen
                (advance spinnerRigFire n (spinnerRigUpdate True r1 r2 (b, sp, seen)))"
proof -
  note st = update_starts [OF assms, of r1 r2 seen]
  show ?thesis
  proof (cases "n < 3900")
    case True
    then have "now (fst (spinnerRigUpdate True r1 r2 (b, sp, seen))) + n < now b + 3900"
      using st(2) by simp
    from advance_spinning [OF st(1) this] True show ?thesis by simp
  next
    case False
    then have "now b + 3900 \<le> now (fst (spinnerRigUpdate True r1 r2 (b, sp, seen))) + n"
      using st(2) by simp
    from advance_reveals [OF st(1) this] False show ?thesis by simp
  qed
qed

text \<open>
  The amount selector started by \<^verbatim>\<open>isSpinning\<close> turning true with the results \<open>r1\<close> and
  \<open>r2\<close> of \<^verbatim>\<open>Math.random()\<close>, and left alone: it calls \<^verbatim>\<open>onSpinComplete\<close> not at all
  before 3900 ms and exactly once from then on, whatever time passes. The rotation is
  five full turns plus five times \<open>r1\<close> turns, plus 45 degrees for each of the segments
  counted by 8 times \<open>r2\<close> rounded down; the value is the element of the eight fixed amounts
  at the index obtained from the rotation: the rotation reduced modulo 360, divided by
  the segment angle 45 and rounded down, modulo the segment count 8.
\<close>

lemma spinner_alone_reports_once:
  assumes "0 \<le> r1" and "0 \<le> r2" and "spinnerOwns (b, sp)"
  shows "\<exists>k<8.
     newRotation 0 r1 r2 =
       jsAdd (jsMul (jsAdd 5 (jsMul r1 5)) 360) (jsMul (of_int \<lfloor>jsMul r2 8\<rfloor>) 45) \<and>
     k = nat \<lfloor>jsDiv (jsRemainder (newRotation 0 r1 r2) 360) 45\<rfloor> mod 8 \<and>
     selectedSegment (newRotation 0 r1 r2) = Some (DONATION_AMOUNTS ! k) \<and>
     DONATION_AMOUNTS ! k \<in> {0.05, 0.10, 0.25, 0.50, 1.00, 2.00, 5.00, 10.00} \<and>
     snd (snd (advance spinnerRigFire n (spinnerRigUpdate True r1 r2 (b, sp, seen)))) =
       (if n < 3900 then seen else seen @ [Some (DONATION_AMOUNTS ! k)])"
proof -
  from selectedSegment_listed [OF newRotation_nonneg [OF assms(1,2)]]
  obtain k where k: "k < 8" "selectedSegment (newRotation 0 r1 r2) = Some (DONATION_AMOUNTS ! k)"
    "k = nat \<lfloor>jsDiv (jsRemainder (newRotation 0 r1 r2) 360) 45\<rfloor> mod 8"
    by blast
  have "DONATION_AMOUNTS ! k \<in> set DONATION_AMOUNTS"
    using k(1) amounts_table by (intro nth_mem) simp
  then have m: "DONATION_AMOUNTS ! k \<in> {0.05, 0.10, 0.25, 0.50, 1.00, 2.00, 5.00, 10.00}"
    using amounts_table by simp
  have "snd (snd (advance spinnerRigFire n (spinnerRigUpdate True r1 r2 (b, sp, seen)))) =
       (if n < 3900 then seen else seen @ [Some (DONATION_AMOUNTS ! k)])"
    using spinner_cycle [OF assms(3), of n r1 r2 seen] k(2)
    by (simp add: spinningUntil_def revealed_def split: if_splits)
  with k m newRotation_formula [of r1 r2] show ?thesis by blast
qed

lemma rig_owned: "spinnerOwns (startBrowser, mountSpinner)"
  by (simp add: spinnerOwns_def startBrowser_def)

section \<open>The charity selector, and early stops of both selectors\<close>

lemma charities_table: "length CHARITIES = 6" "distinct (map id' CHARITIES)"
  by (simp_all add: CHARITIES_def)

lemma tick_cycling:
  assumes "cyclingUntil t c seen bw"
  shows "if now (fst bw) + 1 < t then cyclingUntil t c seen (tick pickerRigFire bw)
         else cyclingOn c seen (tick pickerRigFire bw)"
    and "now (fst (tick pickerRigFire bw)) = now (fst bw) + 1"
proof -
  obtain b p calls where bw: "bw = (b, p, calls)" by (metis surj_pair)
  from assms obtain i d where td: "timers b = [i, d]"
    by (auto simp: cyclingUntil_def bw split: list.splits)
  from assms td have f: "calls = seen" "now b < t" "period i = Some 100"
    "callback i = CharityIntervalTick" "now b < due i" "period d = None"
    "callback d = CharityReveal c" "due d = t" "handle i \<noteq> handle d"
    "spinInterval p = Some (handle i)" "revealTimeout p = Some (handle d)" "finalCharity p = c"
    by (simp_all add: cyclingUntil_def bw)
  show "if now (fst bw) + 1 < t then cyclingUntil t c seen (tick pickerRigFire bw)
         else cyclingOn c seen (tick pickerRigFire bw)"
    using f td
    by (auto simp: bw tick_def Let_def fireTimer_def pickerRigFire_def pickerFire_def
        cyclingUntil_def cyclingOn_def)
  show "now (fst (tick pickerRigFire bw)) = now (fst bw) + 1"
    using f td
    by (auto simp: bw tick_def Let_def fireTimer_def pickerRigFire_def pickerFire_def)
qed

lemma tick_cyclingOn:
  assumes "cyclingOn c seen bw"
  shows "cyclingOn c seen (tick pickerRigFire bw)"
proof -
  obtain b p calls where bw: "bw = (b, p, calls)" by (metis surj_pair)
  from assms obtain i where td: "timers b = [i]"
    by (auto simp: cyclingOn_def bw split: list.splits)
  show ?thesis using assms td
    by (auto simp: bw tick_def Let_def fireTimer_def pickerRigFire_def pickerFire_def
        cyclingOn_def)
qed

lemma advance_cyclingOn: "cyclingOn c seen bw \<Longrightarrow> cyclingOn c seen (advance pickerRigFire n bw)"
  by (induction n) (simp_all add: advance_0 advance_Suc tick_cyclingOn)

lemma advance_cycling:
  assumes "cyclingUntil t c seen bw" and "now (fst bw) + n < t"
  shows "cyclingUntil t c seen (advance pickerRigFire n bw) \<and>
         now (fst (advance pickerRigFire n bw)) = now (fst bw) + n"
  using assms(2)
proof (induction n)
  case 0
  show ?case using assms(1) by (simp add: advance_0)
next
  case (Suc n)
  then have ih: "cyclingUntil t c seen (advance pickerRigFire n bw)"
    and clock: "now (fst (advance pickerRigFire n bw)) = now (fst bw) + n"
    by simp_all
  from Suc.prems clock have "now (fst (advance pickerRigFire n bw)) + 1 < t" by simp
  with tick_cycling [OF ih] clock
  show ?case by (simp add: advance_Suc)
qed

lemma advance_reports:
  assumes "cyclingUntil t c seen bw" and "t \<le> now (fst bw) + n"
  shows "cyclingOn c seen (advance pickerRigFire n bw)"
proof -
  from assms(1) have lt: "now (fst bw) < t" by (simp add: cyclingUntil_def)
  define k where "k = t - now (fst bw) - 1"
  from lt have kt: "now (fst bw) + k < t" and k1: "now (fst bw) + k + 1 = t"
    by (simp_all add: k_def)
  from assms(2) k1 have "k + 1 \<le> n" by simp
  then obtain m where n: "n = (k + 1) + m" using le_Suc_ex by blast
  from advance_cycling [OF assms(1) kt]
  have s: "cyclingUntil t c seen (advance pickerRigFire k bw)"
    and cl: "now (fst (advance pickerRigFire k bw)) = now (fst bw) + k" by simp_all
  from tick_cycling(1) [OF s] cl k1
  have "cyclingOn c seen (tick pickerRigFire (advance pickerRigFire k bw))" by simp
  then have "cyclingOn c seen (advance pickerRigFire (k + 1) bw)"
    by (simp add: advance_Suc)
  then have "cyclingOn c seen (advance pickerRigFire m (advance pickerRigFire (k + 1) bw))"
    by (rule advance_cyclingOn)
  then show ?thesis by (simp only: n advance_add)
qed

lemma picker_cleanup_owned:
  assumes "pickerOwns bp"
  shows "timers (fst (pickerCleanup bp)) = []"
    and "now (fst (pickerCleanup bp)) = now (fst bp)"
    and "snd (pickerCleanup bp) = snd bp"
  using assms
  by (auto simp: pickerOwns_def pickerCleanup_def clearTimer_def filter_empty_conv
      split: option.splits)

lemma picker_starts:
  assumes "pickerOwns (b, p)"
  shows "cyclingUntil (now b + 4000) (selectedCharity_pk r) seen
           (pickerRigUpdate True r (b, p, seen))"
    and "now (fst (pickerRigUpdate True r (b, p, seen))) = now b"
proof -
  obtain b' p' where c: "pickerCleanup (b, p) = (b', p')" by (metis surj_pair)
  from picker_cleanup_owned [OF assms] c have e: "timers b' = []" "now b' = now b" by simp_all
  show "cyclingUntil (now b + 4000) (selectedCharity_pk r) seen
           (pickerRigUpdate True r (b, p, seen))"
    using e
    by (simp add: pickerRigUpdate_def pickerUpdate_def pickerEffect_def c charities_table
        setInterval_def setTimeout_def Let_def cyclingUntil_def)
  show "now (fst (pickerRigUpdate True r (b, p, seen))) = now b"
    using e
    by (simp add: pickerRigUpdate_def pickerUpdate_def pickerEffect_def c
        setInterval_def setTimeout_def Let_def)
qed

lemma picker_stops:
  assumes "pickerOwns (b, p)"
  shows "timers (fst (pickerRigUpdate False r (b, p, seen))) = []"
    and "snd (snd (pickerRigUpdate False r (b, p, seen))) = seen"
    and "finalCharity (fst (snd (pickerRigUpdate False r (b, p, seen)))) = finalCharity p"
  using picker_cleanup_owned [OF assms]
  by (auto simp: pickerRigUpdate_def pickerUpdate_def pickerEffect_def split: prod.splits)

lemma picker_unmount_stops:
  assumes "pickerOwns (b, p)"
  shows "timers (fst (pickerRigUnmount (b, p, seen))) = []"
    and "snd (snd (pickerRigUnmount (b, p, seen))) = seen"
  using picker_cleanup_owned [OF assms]
  by (auto simp: pickerRigUnmount_def split: prod.splits)

lemma cycling_owned: "cyclingUntil t c seen bw \<Longrightarrow> pickerOwns (fst bw, fst (snd bw))"
  by (auto simp: cyclingUntil_def pickerOwns_def split: list.splits)

lemma cyclingOn_owned: "cyclingOn c seen bw \<Longrightarrow> pickerOwns (fst bw, fst (snd bw))"
  by (auto simp: cyclingOn_def pickerOwns_def split: list.splits)

lemma picker_cycle:
  assumes "pickerOwns (b, p)"
  shows "if n < 4000
         then cyclingUntil (now b + 4000) (selectedCharity_pk r) seen
                (advance pickerRigFire n (pickerRigUpdate True r (b, p, seen)))
         else cyclingOn (selectedCharity_pk r) seen
                (advance pickerRigFire n (pickerRigUpdate True r (b, p, seen)))"
proof -
  note st = picker_starts [OF assms, of r seen]
  show ?thesis
  proof (cases "n < 4000")
    case True
    then have "now (fst (pickerRigUpdate True r (b, p, seen))) + n < now b + 4000"
      using st(2) by simp
    from advance_cycling [OF st(1) this] True show ?thesis by simp
  next
    case False
    then have "now b + 4000 \<le> now (fst (pickerRigUpdate True r (b, p, seen))) + n"
      using st(2) by simp
    from advance_reports [OF st(1) this] False show ?thesis by simp
  qed
qed

text \<open>
  Every result of \<^verbatim>\<open>Math.random()\<close> draws one of the six charities.
\<close>

lemma draw_listed:
  assumes "isDouble r" and "0 \<le> r" and "r < 1"
  shows "nat \<lfloor>jsMul r 6\<rfloor> < 6"
    and "selectedCharity_pk r = Some (CHARITIES ! nat \<lfloor>jsMul r 6\<rfloor>)"
proof -
  note b = times_six_below [OF assms]
  from b(2) have hi: "\<lfloor>jsMul r 6\<rfloor> < 6" by (simp add: floor_less_iff)
  have lo: "0 \<le> \<lfloor>jsMul r 6\<rfloor>" using b(1) by simp
  from lo hi show "nat \<lfloor>jsMul r 6\<rfloor> < 6" by linarith
  from lo hi have "(of_int \<lfloor>jsMul r 6\<rfloor> :: real) < 6" "(0::real) \<le> of_int \<lfloor>jsMul r 6\<rfloor>"
    by simp_all
  then show "selectedCharity_pk r = Some (CHARITIES ! nat \<lfloor>jsMul r 6\<rfloor>)"
    by (simp add: selectedCharity_pk_def arrayAt_def charities_table)
qed

lemma spinner_calls:
  assumes "spinnerOwns (fst bw, fst (snd bw))"
  shows "snd (snd (advance spinnerRigFire n (spinnerRigUpdate True r1 r2 bw))) =
           (if n < 3900 then snd (snd bw) else snd (snd bw) @ [selectedSegment (newRotation 0 r1 r2)])"
    and "spinnerOwns (fst (advance spinnerRigFire n (spinnerRigUpdate True r1 r2 bw)),
           fst (snd (advance spinnerRigFire n (spinnerRigUpdate True r1 r2 bw))))"
proof -
  obtain b sp seen where bw: "bw = (b, sp, seen)" by (metis surj_pair)
  from assms have o: "spinnerOwns (b, sp)" by (simp add: bw)
  note c = spinner_cycle [OF o, of n r1 r2 seen]
  show "snd (snd (advance spinnerRigFire n (spinnerRigUpdate True r1 r2 bw))) =
           (if n < 3900 then snd (snd bw) else snd (snd bw) @ [selectedSegment (newRotation 0 r1 r2)])"
    using c by (simp add: bw spinningUntil_def revealed_def split: if_splits)
  show "spinnerOwns (fst (advance spinnerRigFire n (spinnerRigUpdate True r1 r2 bw)),
           fst (snd (advance spinnerRigFire n (spinnerRigUpdate True r1 r2 bw))))"
    using c spinning_owned revealed_owned by (auto simp: bw split: if_splits)
qed

lemma spinner_off:
  assumes "spinnerOwns (fst bw, fst (snd bw))"
  shows "timers (fst (spinnerRigUpdate False r1 r2 bw)) = []"
    and "snd (snd (advance spinnerRigFire n (spinnerRigUpdate False r1 r2 bw))) = snd (snd bw)"
    and "timers (fst (spinnerRigUnmount bw)) = []"
    and "snd (snd (advance spinnerRigFire n (spinnerRigUnmount bw))) = snd (snd bw)"
proof -
  obtain b sp seen where bw: "bw = (b, sp, seen)" by (metis surj_pair)
  from assms have o: "spinnerOwns (b, sp)" by (simp add: bw)
  show t: "timers (fst (spinnerRigUpdate False r1 r2 bw)) = []"
    using update_stops(1) [OF o] by (simp add: bw)
  show "snd (snd (advance spinnerRigFire n (spinnerRigUpdate False r1 r2 bw))) = snd (snd bw)"
    using quiet [OF t, of spinnerRigFire n] update_stops(2) [OF o, of r1 r2 seen] by (simp add: bw)
  show u: "timers (fst (spinnerRigUnmount bw)) = []"
    using unmount_stops(1) [OF o] by (simp add: bw)
  show "snd (snd (advance spinnerRigFire n (spinnerRigUnmount bw))) = snd (snd bw)"
    using quiet [OF u, of spinnerRigFire n] unmount_stops(2) [OF o, of seen] by (simp add: bw)
qed

lemma picker_calls:
  assumes "pickerOwns (fst bw, fst (snd bw))"
  shows "snd (snd (advance pickerRigFire n (pickerRigUpdate True r bw))) =
           (if n < 4000 then snd (snd bw)
            else snd (snd bw) @ [selectedCharity_pk r])"
    and "pickerOwns (fst (advance pickerRigFire n (pickerRigUpdate True r bw)),
           fst (snd (advance pickerRigFire n (pickerRigUpdate True r bw))))"
    and "finalCharity (fst (snd (advance pickerRigFire n (pickerRigUpdate True r bw)))) =
           selectedCharity_pk r"
proof -
  obtain b p seen where bw: "bw = (b, p, seen)" by (metis surj_pair)
  from assms have o: "pickerOwns (b, p)" by (simp add: bw)
  note c = picker_cycle [OF o, of n r seen]
  show "snd (snd (advance pickerRigFire n (pickerRigUpdate True r bw))) =
           (if n < 4000 then snd (snd bw)
            else snd (snd bw) @ [selectedCharity_pk r])"
    using c by (simp add: bw cyclingUntil_def cyclingOn_def split: if_splits)
  show "pickerOwns (fst (advance pickerRigFire n (pickerRigUpdate True r bw)),
           fst (snd (advance pickerRigFire n (pickerRigUpdate True r bw))))"
    using c cycling_owned cyclingOn_owned by (auto simp: bw split: if_splits)
  show "finalCharity (fst (snd (advance pickerRigFire n (pickerRigUpdate True r bw)))) =
           selectedCharity_pk r"
    using c by (simp add: bw cyclingUntil_def cyclingOn_def split: if_splits)
qed

lemma picker_off:
  assumes "pickerOwns (fst bw, fst (snd bw))"
  shows "timers (fst (pickerRigUpdate False r bw)) = []"
    and "snd (snd (advance pickerRigFire n (pickerRigUpdate False r bw))) = snd (snd bw)"
    and "timers (fst (pickerRigUnmount bw)) = []"
    and "snd (snd (advance pickerRigFire n (pickerRigUnmount bw))) = snd (snd bw)"
    and "finalCharity (fst (snd (pickerRigUpdate False r bw))) = finalCharity (fst (snd bw))"
proof -
  obtain b p seen where bw: "bw = (b, p, seen)" by (metis surj_pair)
  from assms have o: "pickerOwns (b, p)" by (simp add: bw)
  show t: "timers (fst (pickerRigUpdate False r bw)) = []"
    using picker_stops(1) [OF o] by (simp add: bw)
  show "snd (snd (advance pickerRigFire n (pickerRigUpdate False r bw))) = snd (snd bw)"
    using quiet [OF t, of pickerRigFire n] picker_stops(2) [OF o, of r seen] by (simp add: bw)
  show u: "timers (fst (pickerRigUnmount bw)) = []"
    using picker_unmount_stops(1) [OF o] by (simp add: bw)
  show "snd (snd (advance pickerRigFire n (pickerRigUnmount bw))) = snd (snd bw)"
    using quiet [OF u, of pickerRigFire n] picker_unmount_stops(2) [OF o, of seen]
    by (simp add: bw)
  show "finalCharity (fst (snd (pickerRigUpdate False r bw))) = finalCharity (fst (snd bw))"
    using picker_stops(3) [OF o, of r seen] by (simp add: bw)
qed

text \<open>
  Claim C7: when \<^verbatim>\<open>isSpinning\<close> turns false before the duration has elapsed, after
  \<open>k < 3900\<close> ms for the amount selector and \<open>j < 4000\<close> ms for the charity selector,
  or the component is unmounted then, the timer table is empty and no callback is ever
  made, however long the clock runs. When instead the effect runs again for a new cycle,
  the only callback that follows is the one of the new cycle, at its own delay: the timers
  of the earlier cycle are gone.
\<close>

theorem early_stop_cancels_timers:
  assumes "spinnerOwns (b, sp)" and "pickerOwns (b', p)" and "k < 3900" and "j < 4000"
  shows "timers (fst (spinnerRigUpdate False r3 r4 
      (advance spinnerRigFire k (spinnerRigUpdate True r1 r2 (b, sp, seen))))) = [] \<and>
    snd (snd (advance spinnerRigFire n (spinnerRigUpdate False r3 r4 
      (advance spinnerRigFire k (spinnerRigUpdate True r1 r2 (b, sp, seen)))))) = seen \<and>
    timers (fst (spinnerRigUnmount 
      (advance spinnerRigFire k (spinnerRigUpdate True r1 r2 (b, sp, seen))))) = [] \<and>
    snd (snd (advance spinnerRigFire n (spinnerRigUnmount 
      (advance spinnerRigFire k (spinnerRigUpdate True r1 r2 (b, sp, seen)))))) = seen \<and>
    timers (fst (pickerRigUpdate False r' 
      (advance pickerRigFire j (pickerRigUpdate True r (b', p, told))))) = [] \<and>
    snd (snd (advance pickerRigFire n (pickerRigUpdate False r' 
      (advance pickerRigFire j (pickerRigUpdate True r (b', p, told)))))) = told \<and>
    timers (fst (pickerRigUnmount 
      (advance pickerRigFire j (pickerRigUpdate True r (b', p, told))))) = [] \<and>
    snd (snd (advance pickerRigFire n (pickerRigUnmount 
      (advance pickerRigFire j (pickerRigUpdate True r (b', p, told)))))) = told \<and>
    snd (snd (advance spinnerRigFire n (spinnerRigUpdate True r3 r4 
      (advance spinnerRigFire k (spinnerRigUpdate True r1 r2 (b, sp, seen)))))) =
      (if n < 3900 then seen else seen @ [selectedSegment (newRotation 0 r3 r4)]) \<and>
    snd (snd (advance pickerRigFire n (pickerRigUpdate True r' 
      (advance pickerRigFire j (pickerRigUpdate True r (b', p, told)))))) =
      (if n < 4000 then told else told @ [selectedCharity_pk r'])"
proof -
  let ?spun = "advance spinnerRigFire k (spinnerRigUpdate True r1 r2 (b, sp, seen))"
  let ?cycled = "advance pickerRigFire j (pickerRigUpdate True r (b', p, told))"
  have so: "spinnerOwns (fst ?spun, fst (snd ?spun))" and sc: "snd (snd ?spun) = seen"
    using spinner_calls [of "(b, sp, seen)" k r1 r2] assms(1,3) by simp_all
  have po: "pickerOwns (fst ?cycled, fst (snd ?cycled))" and pc: "snd (snd ?cycled) = told"
    using picker_calls(1,2) [of "(b', p, told)" j r] assms(2,4) by simp_all
  show ?thesis
    using spinner_off [OF so] picker_off(1-4) [OF po] spinner_calls(1) [OF so]
      picker_calls(1) [OF po]
    by (simp add: sc pc)
qed

lemma picker_rig_owned: "pickerOwns (startBrowser, mountPicker)"
  by (simp add: pickerOwns_def startBrowser_def)

theorem early_stop_cancels_timers_witness:
  "timers (fst (spinnerRigUpdate False 0 0
     (advance spinnerRigFire 2000 (spinnerRigUpdate True (1 / 4) (3 / 4) spinnerRig)))) = [] \<and>
   snd (snd (advance spinnerRigFire 5000 (spinnerRigUpdate False 0 0
     (advance spinnerRigFire 2000 (spinnerRigUpdate True (1 / 4) (3 / 4) spinnerRig))))) = [] \<and>
   snd (snd (advance pickerRigFire 5000 (pickerRigUpdate False 0
     (advance pickerRigFire 3999 (pickerRigUpdate True (1 / 2) pickerRig))))) = [] \<and>
   snd (snd (advance pickerRigFire 5000 (pickerRigUnmount
     (advance pickerRigFire 3999 (pickerRigUpdate True (1 / 2) pickerRig))))) = []"
proof -
  have o: "spinnerOwns (startBrowser, mountSpinner)"
    by (simp add: spinnerOwns_def startBrowser_def)
  have k: "(2000::nat) < 3900" "(3999::nat) < 4000" by simp_all
  from early_stop_cancels_timers [OF o picker_rig_owned k,
      where ?r1.0 = "1 / 4" and ?r2.0 = "3 / 4" and seen = "[]" and r = "1 / 2" and told = "[]" and ?r3.0 = 0
        and ?r4.0 = 0 and n = 5000 and r' = 0]
  show ?thesis by (simp add: spinnerRig_def pickerRig_def)
qed

text \<open>
  The charity selector left alone for a whole cycle: the charity is drawn when the effect
  runs; it is reported not at all before 4000 ms and exactly once from then on; and when
  \<^verbatim>\<open>isSpinning\<close> turns false after that, the interval stops and the drawn charity is the
  one displayed.
\<close>

lemma picker_alone_reports_once:
  assumes "isDouble r" and "0 \<le> r" and "r < 1" and "pickerOwns (b, p)"
  shows "nat \<lfloor>jsMul r 6\<rfloor> < 6"
    and "finalCharity (fst (snd (pickerRigUpdate True r (b, p, told)))) =
           Some (CHARITIES ! nat \<lfloor>jsMul r 6\<rfloor>)"
    and "snd (snd (advance pickerRigFire n (pickerRigUpdate True r (b, p, told)))) =
           (if n < 4000 then told else told @ [Some (CHARITIES ! nat \<lfloor>jsMul r 6\<rfloor>)])"
    and "timers (fst (pickerRigUpdate False r'
           (advance pickerRigFire n (pickerRigUpdate True r (b, p, told))))) = []"
    and "pickerShows False (fst (snd (pickerRigUpdate False r'
           (advance pickerRigFire n (pickerRigUpdate True r (b, p, told)))))) =
           Some (name (CHARITIES ! nat \<lfloor>jsMul r 6\<rfloor>))"
proof -
  note d = draw_listed [OF assms(1-3)]
  have o: "pickerOwns (fst (b, p, told), fst (snd (b, p, told)))" using assms(4) by simp
  note c = picker_calls [OF o, of _ r]
  show "nat \<lfloor>jsMul r 6\<rfloor> < 6" by (rule d(1))
  show "finalCharity (fst (snd (pickerRigUpdate True r (b, p, told)))) =
           Some (CHARITIES ! nat \<lfloor>jsMul r 6\<rfloor>)"
    using c(3) [of 0] d(2) by (simp add: advance_0)
  show "snd (snd (advance pickerRigFire n (pickerRigUpdate True r (b, p, told)))) =
           (if n < 4000 then told else told @ [Some (CHARITIES ! nat \<lfloor>jsMul r 6\<rfloor>)])"
    using c(1) [of n] d(2) by simp
  show "timers (fst (pickerRigUpdate False r'
           (advance pickerRigFire n (pickerRigUpdate True r (b, p, told))))) = []"
    using picker_off(1) [OF c(2)] by simp
  show "pickerShows False (fst (snd (pickerRigUpdate False r'
           (advance pickerRigFire n (pickerRigUpdate True r (b, p, told)))))) =
           Some (name (CHARITIES ! nat \<lfloor>jsMul r 6\<rfloor>))"
    using picker_off(5) [OF c(2), where r = r'] c(3) [of n] d(2) by (simp add: pickerShows_def)
qed

text \<open>
  The charity selector when its parent renders again during the cycle, at 3900 ms with
  \<^verbatim>\<open>isSpinning\<close> still true and at 4000 ms with \<^verbatim>\<open>isSpinning\<close> false: the effect
  runs again each time, the first reveal timeout is cleared, a second charity is drawn,
  and its timeout is cleared in turn. No callback is made, and the charity then displayed
  is the second draw.
\<close>

lemma draw_at_seven_eighths: "selectedCharity_pk (7 / 8) = Some (CHARITIES ! 5)"
proof -
  have "double (of_int 21 * 2 powi (- 2)) = of_int 21 * 2 powi (- 2)"
    by (rule double_exact) simp_all
  then have j: "jsMul (7 / 8) 6 = 21 / 4" by (simp add: jsMul_def power_int_minus)
  have l: "real (length CHARITIES) = 6" by (simp add: charities_table)
  have "selectedCharity_pk (7 / 8) = arrayAt CHARITIES (of_int \<lfloor>21 / 4 :: real\<rfloor>)"
    by (simp only: selectedCharity_pk_def l j)
  also have "\<lfloor>21 / 4 :: real\<rfloor> = 5" by simp
  finally show ?thesis by (simp add: arrayAt_def charities_table)
qed

lemma charity_callback_lost_on_rerender:
  "snd (snd (advance pickerRigFire 6000 (pickerRigUpdate False 0
     (advance pickerRigFire 100 (pickerRigUpdate True (7 / 8)
       (advance pickerRigFire 3900 (pickerRigUpdate True (1 / 2) pickerRig))))))) = [] \<and>
   finalCharity (fst (snd (pickerRigUpdate False 0
     (advance pickerRigFire 100 (pickerRigUpdate True (7 / 8)
       (advance pickerRigFire 3900 (pickerRigUpdate True (1 / 2) pickerRig))))))) =
     Some (CHARITIES ! 5)"
proof -
  let ?a = "advance pickerRigFire 3900 (pickerRigUpdate True (1 / 2) pickerRig)"
  let ?b = "advance pickerRigFire 100 (pickerRigUpdate True (7 / 8) ?a)"
  have o: "pickerOwns (fst pickerRig, fst (snd pickerRig))"
    by (simp add: pickerRig_def pickerOwns_def startBrowser_def)
  have a: "snd (snd ?a) = []" "pickerOwns (fst ?a, fst (snd ?a))"
    using picker_calls(1,2) [OF o, of 3900 "1 / 2"] by (simp_all add: pickerRig_def)
  have b: "snd (snd ?b) = []" "pickerOwns (fst ?b, fst (snd ?b))"
    "finalCharity (fst (snd ?b)) = selectedCharity_pk (7 / 8)"
    using picker_calls [OF a(2), of 100 "7 / 8"] a(1) by simp_all
  show ?thesis
    using picker_off(2) [OF b(2), where r = 0 and n = 6000] picker_off(5) [OF b(2), where r = 0]
      b(1,3) draw_at_seven_eighths by simp
qed

section \<open>Runs of the root view, event by event\<close>




section \<open>A spin in the page\<close>

lemmas page_defs = firePage_def setHome_def renderPage_def pickerUpdate_def pickerCleanup_def
  pickerEffect_def spinnerUpdate_def spinnerCleanup_def spinnerEffect_def pickerFire_def
  spinnerFire_def clearTimer_def setInterval_def setTimeout_def

lemma pageShape_timers:
  assumes "pageShape hs dS dR dA seg h bw"
  obtains s ci cr si st where "timers (fst bw) = [s, ci, cr, si, st]"
    and "hs = [handle s, handle ci, handle cr, handle si, handle st]"
  using assms by (auto simp: pageShape_def split: list.splits)

lemma fire_charity_interval:
  assumes "pageShape hs dS dR dA seg h bw"
  shows "pageShape hs dS dR dA seg h (fireTimer (firePage rnd) (hs ! 1) bw)"
    and "now (fst (fireTimer (firePage rnd) (hs ! 1) bw)) = now (fst bw)"
    and "drawn (snd (fireTimer (firePage rnd) (hs ! 1) bw)) = drawn (snd bw)"
    and "due (timers (fst (fireTimer (firePage rnd) (hs ! 1) bw)) ! 1) = due (timers (fst bw) ! 1) + 100"
    and "due (timers (fst (fireTimer (firePage rnd) (hs ! 1) bw)) ! 3) = due (timers (fst bw) ! 3)"
    and "finalCharity (charitySelector (snd (fireTimer (firePage rnd) (hs ! 1) bw))) =
           finalCharity (charitySelector (snd bw))"
proof -
  from assms obtain s ci cr si st where t: "timers (fst bw) = [s, ci, cr, si, st]"
    and hs: "hs = [handle s, handle ci, handle cr, handle si, handle st]"
    by (rule pageShape_timers)
  from assms t hs have f: "handle s \<noteq> handle ci" "callback ci = CharityIntervalTick"
    "period ci = Some 100" "handle ci \<noteq> handle cr" "handle ci \<noteq> handle si"
    "handle ci \<noteq> handle st"
    by (auto simp: pageShape_def)
  have r: "fireTimer (firePage rnd) (handle ci) bw =
     ((fst bw)\<lparr> timers := [s, ci\<lparr> due := due ci + 100 \<rparr>, cr, si, st] \<rparr>,
      (snd bw)\<lparr> charitySelector := (charitySelector (snd bw))
         \<lparr> currentIndex := (currentIndex (charitySelector (snd bw)) + 1) mod length CHARITIES \<rparr> \<rparr>)"
    using f by (auto simp: fireTimer_def t firePage_def pickerFire_def)
  have h1: "hs ! 1 = handle ci" by (simp add: hs)
  show "pageShape hs dS dR dA seg h (fireTimer (firePage rnd) (hs ! 1) bw)"
    unfolding h1 using assms by (simp add: r pageShape_def t)
  show "now (fst (fireTimer (firePage rnd) (hs ! 1) bw)) = now (fst bw)" unfolding h1 by (simp add: r)
  show "drawn (snd (fireTimer (firePage rnd) (hs ! 1) bw)) = drawn (snd bw)" unfolding h1 by (simp add: r)
  show "due (timers (fst (fireTimer (firePage rnd) (hs ! 1) bw)) ! 1) = due (timers (fst bw) ! 1) + 100"
    unfolding h1 by (simp add: r t)
  show "due (timers (fst (fireTimer (firePage rnd) (hs ! 1) bw)) ! 3) = due (timers (fst bw) ! 3)"
    unfolding h1 by (simp add: r t)
  show "finalCharity (charitySelector (snd (fireTimer (firePage rnd) (hs ! 1) bw))) =
           finalCharity (charitySelector (snd bw))"
    unfolding h1 by (simp add: r)
qed

lemma fire_amount_interval:
  assumes "pageShape hs dS dR dA seg h bw"
  shows "pageShape hs dS dR dA seg h (fireTimer (firePage rnd) (hs ! 3) bw)"
    and "now (fst (fireTimer (firePage rnd) (hs ! 3) bw)) = now (fst bw)"
    and "drawn (snd (fireTimer (firePage rnd) (hs ! 3) bw)) = drawn (snd bw)"
    and "due (timers (fst (fireTimer (firePage rnd) (hs ! 3) bw)) ! 3) = due (timers (fst bw) ! 3) + 100"
    and "due (timers (fst (fireTimer (firePage rnd) (hs ! 3) bw)) ! 1) = due (timers (fst bw) ! 1)"
    and "finalCharity (charitySelector (snd (fireTimer (firePage rnd) (hs ! 3) bw))) =
           finalCharity (charitySelector (snd bw))"
proof -
  from assms obtain s ci cr si st where t: "timers (fst bw) = [s, ci, cr, si, st]"
    and hs: "hs = [handle s, handle ci, handle cr, handle si, handle st]"
    by (rule pageShape_timers)
  from assms t hs have f: "handle s \<noteq> handle si" "callback si = SpinIntervalTick"
    "period si = Some 100" "handle ci \<noteq> handle si" "handle cr \<noteq> handle si"
    "handle si \<noteq> handle st"
    by (auto simp: pageShape_def)
  obtain v where r: "fireTimer (firePage rnd) (handle si) bw =
     ((fst bw)\<lparr> timers := [s, ci, cr, si\<lparr> due := due si + 100 \<rparr>, st] \<rparr>,
      (snd bw)\<lparr> amountSelector := (amountSelector (snd bw))\<lparr> selectedAmount_sp := v \<rparr> \<rparr>)"
    using f by (auto simp: fireTimer_def t firePage_def spinnerFire_def Let_def)
  have h1: "hs ! 3 = handle si" by (simp add: hs)
  show "pageShape hs dS dR dA seg h (fireTimer (firePage rnd) (hs ! 3) bw)"
    unfolding h1 using assms by (simp add: r pageShape_def t)
  show "now (fst (fireTimer (firePage rnd) (hs ! 3) bw)) = now (fst bw)" unfolding h1 by (simp add: r)
  show "drawn (snd (fireTimer (firePage rnd) (hs ! 3) bw)) = drawn (snd bw)" unfolding h1 by (simp add: r)
  show "due (timers (fst (fireTimer (firePage rnd) (hs ! 3) bw)) ! 3) = due (timers (fst bw) ! 3) + 100"
    unfolding h1 by (simp add: r t)
  show "due (timers (fst (fireTimer (firePage rnd) (hs ! 3) bw)) ! 1) = due (timers (fst bw) ! 1)"
    unfolding h1 by (simp add: r t)
  show "finalCharity (charitySelector (snd (fireTimer (firePage rnd) (hs ! 3) bw))) =
           finalCharity (charitySelector (snd bw))"
    unfolding h1 by (simp add: r)
qed

lemma fire_gone: "timers (fst bw) = [] \<Longrightarrow> fireTimer fire h bw = bw"
  by (simp add: fireTimer_def)

lemma fire_amount_timeout:
  assumes "pageShape hs dS dR dA (Some a) h bw" and "\<not> showModal h"
  shows "pageSpinning dS (now (fst bw) + 4000) (now (fst bw) + 3900)
           (selectedSegment (newRotation 0 (rnd (drawn (snd bw) + 1)) (rnd (drawn (snd bw) + 2))))
           (handleSpinComplete a h) (fireTimer (firePage rnd) (hs ! 4) bw)"
    and "now (fst (fireTimer (firePage rnd) (hs ! 4) bw)) = now (fst bw)"
    and "finalCharity (charitySelector (snd (fireTimer (firePage rnd) (hs ! 4) bw))) =
           selectedCharity_pk (rnd (drawn (snd bw)))"
    and "drawn (snd (fireTimer (firePage rnd) (hs ! 4) bw)) = drawn (snd bw) + 3"
proof -
  from assms(1) obtain s ci cr si st where t: "timers (fst bw) = [s, ci, cr, si, st]"
    and hs: "hs = [handle s, handle ci, handle cr, handle si, handle st]"
    by (rule pageShape_timers)
  have h4: "hs ! 4 = handle st" by (simp add: hs)
  from assms(1) t hs have d: "handle s \<noteq> handle ci" "handle s \<noteq> handle cr"
    "handle s \<noteq> handle si" "handle s \<noteq> handle st" "handle ci \<noteq> handle cr"
    "handle ci \<noteq> handle si" "handle ci \<noteq> handle st" "handle cr \<noteq> handle si"
    "handle cr \<noteq> handle st" "handle si \<noteq> handle st"
    and n: "handle s < nextHandle (fst bw)"
    and n5: "handle s < nextHandle (fst bw)" "handle ci < nextHandle (fst bw)"
      "handle cr < nextHandle (fst bw)" "handle si < nextHandle (fst bw)"
      "handle st < nextHandle (fst bw)"
    and f: "home (snd bw) = h" "isSpinning h" "callback s = SpinAnimationComplete"
      "period s = None" "due s = dS" "callback st = SpinTimeoutDone (Some a)" "period st = None"
      "spinInterval (charitySelector (snd bw)) = Some (handle ci)"
      "revealTimeout (charitySelector (snd bw)) = Some (handle cr)"
      "spinIntervalRef (amountSelector (snd bw)) = Some (handle si)"
      "spinTimeoutRef (amountSelector (snd bw)) = Some (handle st)"
    by (auto simp: pageShape_def)
  have fr: "nextHandle (fst bw) \<noteq> handle s"
    "Suc (nextHandle (fst bw)) \<noteq> handle s"
    "Suc (Suc (nextHandle (fst bw))) \<noteq> handle s"
    "Suc (Suc (Suc (nextHandle (fst bw)))) \<noteq> handle s"
    "nextHandle (fst bw) \<noteq> handle ci"
    "Suc (nextHandle (fst bw)) \<noteq> handle ci"
    "Suc (Suc (nextHandle (fst bw))) \<noteq> handle ci"
    "Suc (Suc (Suc (nextHandle (fst bw)))) \<noteq> handle ci"
    "nextHandle (fst bw) \<noteq> handle cr"
    "Suc (nextHandle (fst bw)) \<noteq> handle cr"
    "Suc (Suc (nextHandle (fst bw))) \<noteq> handle cr"
    "Suc (Suc (Suc (nextHandle (fst bw)))) \<noteq> handle cr"
    "nextHandle (fst bw) \<noteq> handle si"
    "Suc (nextHandle (fst bw)) \<noteq> handle si"
    "Suc (Suc (nextHandle (fst bw))) \<noteq> handle si"
    "Suc (Suc (Suc (nextHandle (fst bw)))) \<noteq> handle si"
    "nextHandle (fst bw) \<noteq> handle st"
    "Suc (nextHandle (fst bw)) \<noteq> handle st"
    "Suc (Suc (nextHandle (fst bw))) \<noteq> handle st"
    "Suc (Suc (Suc (nextHandle (fst bw)))) \<noteq> handle st"
    using n5 by simp_all
  have ne: "handleSpinComplete a h \<noteq> h"
  proof
    assume "handleSpinComplete a h = h"
    then have "showModal (handleSpinComplete a h) = showModal h" by simp
    then show False using assms(2) by (simp add: handleSpinComplete_def)
  qed
  have sp: "isSpinning (handleSpinComplete a h)"
    using f(2) by (simp add: handleSpinComplete_def)
  have r: "fst (fireTimer (firePage rnd) (handle st) bw) =
      (fst bw)\<lparr> nextHandle := nextHandle (fst bw) + 4,
        timers := [s,
          \<lparr> handle = nextHandle (fst bw), due = now (fst bw) + 100, period = Some 100,
            callback = CharityIntervalTick \<rparr>,
          \<lparr> handle = nextHandle (fst bw) + 1, due = now (fst bw) + 4000, period = None,
            callback = CharityReveal (selectedCharity_pk (rnd (drawn (snd bw)))) \<rparr>,
          \<lparr> handle = nextHandle (fst bw) + 2, due = now (fst bw) + 100, period = Some 100,
            callback = SpinIntervalTick \<rparr>,
          \<lparr> handle = nextHandle (fst bw) + 3, due = now (fst bw) + 3900, period = None,
            callback = SpinTimeoutDone (selectedSegment
              (newRotation 0 (rnd (drawn (snd bw) + 1)) (rnd (drawn (snd bw) + 2)))) \<rparr>] \<rparr>"
    using d d [symmetric] fr fr [symmetric] f ne sp
    by (simp add: fireTimer_def t page_defs Let_def)
  have r2: "home (snd (fireTimer (firePage rnd) (handle st) bw)) = handleSpinComplete a h"
    "spinInterval (charitySelector (snd (fireTimer (firePage rnd) (handle st) bw))) =
       Some (nextHandle (fst bw))"
    "revealTimeout (charitySelector (snd (fireTimer (firePage rnd) (handle st) bw))) =
       Some (nextHandle (fst bw) + 1)"
    "spinIntervalRef (amountSelector (snd (fireTimer (firePage rnd) (handle st) bw))) =
       Some (nextHandle (fst bw) + 2)"
    "spinTimeoutRef (amountSelector (snd (fireTimer (firePage rnd) (handle st) bw))) =
       Some (nextHandle (fst bw) + 3)"
    "finalCharity (charitySelector (snd (fireTimer (firePage rnd) (handle st) bw))) =
       selectedCharity_pk (rnd (drawn (snd bw)))"
    "drawn (snd (fireTimer (firePage rnd) (handle st) bw)) = drawn (snd bw) + 3"
    using d d [symmetric] fr fr [symmetric] f ne sp
    by (simp_all add: fireTimer_def t page_defs Let_def)
  show "pageSpinning dS (now (fst bw) + 4000) (now (fst bw) + 3900)
           (selectedSegment (newRotation 0 (rnd (drawn (snd bw) + 1)) (rnd (drawn (snd bw) + 2))))
           (handleSpinComplete a h) (fireTimer (firePage rnd) (hs ! 4) bw)"
    unfolding h4 using n f(3-5) sp
    by (simp add: pageSpinning_def pageShape_def r r2)
  show "now (fst (fireTimer (firePage rnd) (hs ! 4) bw)) = now (fst bw)"
    unfolding h4 by (simp add: r)
  show "finalCharity (charitySelector (snd (fireTimer (firePage rnd) (hs ! 4) bw))) =
           selectedCharity_pk (rnd (drawn (snd bw)))"
    unfolding h4 by (rule r2(6))
  show "drawn (snd (fireTimer (firePage rnd) (hs ! 4) bw)) = drawn (snd bw) + 3"
    unfolding h4 by (rule r2(7))
qed

lemma fire_stop:
  assumes "pageShape hs dS dR dA seg h bw"
  shows "timers (fst (fireTimer (firePage rnd) (hs ! 0) bw)) = []"
    and "home (snd (fireTimer (firePage rnd) (hs ! 0) bw)) = spinAnimationComplete h"
    and "now (fst (fireTimer (firePage rnd) (hs ! 0) bw)) = now (fst bw)"
    and "pageIdle (fireTimer (firePage rnd) (hs ! 0) bw)"
    and "finalCharity (charitySelector (snd (fireTimer (firePage rnd) (hs ! 0) bw))) =
           finalCharity (charitySelector (snd bw))"
    and "drawn (snd (fireTimer (firePage rnd) (hs ! 0) bw)) = drawn (snd bw)"
proof -
  from assms(1) obtain s ci cr si st where t: "timers (fst bw) = [s, ci, cr, si, st]"
    and hs: "hs = [handle s, handle ci, handle cr, handle si, handle st]"
    by (rule pageShape_timers)
  have h0: "hs ! 0 = handle s" by (simp add: hs)
  from assms(1) t hs have d: "handle s \<noteq> handle ci" "handle s \<noteq> handle cr"
    "handle s \<noteq> handle si" "handle s \<noteq> handle st" "handle ci \<noteq> handle cr"
    "handle ci \<noteq> handle si" "handle ci \<noteq> handle st" "handle cr \<noteq> handle si"
    "handle cr \<noteq> handle st" "handle si \<noteq> handle st"
    and f: "home (snd bw) = h" "isSpinning h" "callback s = SpinAnimationComplete"
      "period s = None"
      "spinInterval (charitySelector (snd bw)) = Some (handle ci)"
      "revealTimeout (charitySelector (snd bw)) = Some (handle cr)"
      "spinIntervalRef (amountSelector (snd bw)) = Some (handle si)"
      "spinTimeoutRef (amountSelector (snd bw)) = Some (handle st)"
    by (auto simp: pageShape_def)
  have ne: "spinAnimationComplete h \<noteq> h"
  proof
    assume "spinAnimationComplete h = h"
    then have "isSpinning (spinAnimationComplete h) = isSpinning h" by simp
    then show False using f(2) by (simp add: spinAnimationComplete_def)
  qed
  have sp: "\<not> isSpinning (spinAnimationComplete h)"
    by (simp add: spinAnimationComplete_def)
  show "timers (fst (fireTimer (firePage rnd) (hs ! 0) bw)) = []"
    unfolding h0 using d d [symmetric] f ne sp
    by (simp add: fireTimer_def t page_defs Let_def)
  show "home (snd (fireTimer (firePage rnd) (hs ! 0) bw)) = spinAnimationComplete h"
    unfolding h0 using d d [symmetric] f ne sp
    by (simp add: fireTimer_def t page_defs Let_def)
  show "now (fst (fireTimer (firePage rnd) (hs ! 0) bw)) = now (fst bw)"
    unfolding h0 using d d [symmetric] f ne sp
    by (simp add: fireTimer_def t page_defs Let_def)
  show "pageIdle (fireTimer (firePage rnd) (hs ! 0) bw)"
    unfolding h0 using d d [symmetric] f ne sp
    by (simp add: fireTimer_def t page_defs Let_def pageIdle_def)
  show "finalCharity (charitySelector (snd (fireTimer (firePage rnd) (hs ! 0) bw))) =
           finalCharity (charitySelector (snd bw))"
    unfolding h0 using d d [symmetric] f ne sp
    by (simp add: fireTimer_def t page_defs Let_def)
  show "drawn (snd (fireTimer (firePage rnd) (hs ! 0) bw)) = drawn (snd bw)"
    unfolding h0 using d d [symmetric] f ne sp
    by (simp add: fireTimer_def t page_defs Let_def)
qed

text \<open>The clock moves on by one millisecond; the firings follow.\<close>

lemma pageShape_clock:
  "pageShape hs dS dR dA seg h bw \<Longrightarrow>
   pageShape hs dS dR dA seg h ((fst bw)\<lparr> now := now (fst bw) + 1 \<rparr>, snd bw)"
  by (auto simp: pageShape_def split: list.splits)

lemma tick_unfold:
  assumes "timers (fst bw) = [s, ci, cr, si, st]"
  shows "tick fire bw =
    foldl (\<lambda>bw h. fireTimer fire h bw) ((fst bw)\<lparr> now := now (fst bw) + 1 \<rparr>, snd bw)
      ((if due s \<le> now (fst bw) + 1 then [handle s] else []) @
       (if due ci \<le> now (fst bw) + 1 then [handle ci] else []) @
       (if due cr \<le> now (fst bw) + 1 then [handle cr] else []) @
       (if due si \<le> now (fst bw) + 1 then [handle si] else []) @
       (if due st \<le> now (fst bw) + 1 then [handle st] else []))"
  using assms by (simp add: tick_def Let_def)


lemma pageSpinning_facts:
  assumes "pageSpinning dS dR dA seg h bw"
  obtains s ci cr si st where "timers (fst bw) = [s, ci, cr, si, st]"
    and "pageShape [handle s, handle ci, handle cr, handle si, handle st] dS dR dA seg h bw"
    and "due s = dS" and "due cr = dR" and "due st = dA"
    and "now (fst bw) < due ci" and "now (fst bw) < due si"
proof -
  from assms have sh: "pageShape (map handle (timers (fst bw))) dS dR dA seg h bw"
    and c: "now (fst bw) < due (timers (fst bw) ! 1)" "now (fst bw) < due (timers (fst bw) ! 3)"
    by (simp_all add: pageSpinning_def)
  from sh obtain s ci cr si st where t: "timers (fst bw) = [s, ci, cr, si, st]"
    by (rule pageShape_timers)
  from sh t have d: "due s = dS" "due cr = dR" "due st = dA"
    by (simp_all add: pageShape_def)
  show ?thesis using that [OF t _ d] sh c by (simp add: t)
qed

text \<open>
  The intervals that are due fire first and leave the shape as it is, with both intervals
  due later than the clock.
\<close>

lemma intervals_fired:
  assumes "pageShape hs dS dR dA seg h bw"
    and "timers (fst bw) = [s, ci, cr, si, st]"
    and "now (fst bw) \<le> due ci" and "now (fst bw) \<le> due si"
  shows "\<exists>bw'. foldl (\<lambda>bw h. fireTimer (firePage rnd) h bw) bw
            ((if due ci \<le> now (fst bw) then [handle ci] else []) @
             (if due si \<le> now (fst bw) then [handle si] else []) @ rest) =
          foldl (\<lambda>bw h. fireTimer (firePage rnd) h bw) bw' rest \<and>
          pageShape hs dS dR dA seg h bw' \<and> now (fst bw') = now (fst bw) \<and>
          drawn (snd bw') = drawn (snd bw) \<and>
          now (fst bw') < due (timers (fst bw') ! 1) \<and> now (fst bw') < due (timers (fst bw') ! 3) \<and>
          finalCharity (charitySelector (snd bw')) = finalCharity (charitySelector (snd bw))"
proof -
  from assms(1,2) have hs: "hs = [handle s, handle ci, handle cr, handle si, handle st]"
    by (auto simp: pageShape_def)
  have h1: "handle ci = hs ! 1" and h3: "handle si = hs ! 3" by (simp_all add: hs)
  define b1 where "b1 = (if due ci \<le> now (fst bw) then fireTimer (firePage rnd) (hs ! 1) bw else bw)"
  have s1: "pageShape hs dS dR dA seg h b1" "now (fst b1) = now (fst bw)"
    "drawn (snd b1) = drawn (snd bw)"
    "now (fst b1) < due (timers (fst b1) ! 1)" "now (fst b1) \<le> due (timers (fst b1) ! 3)"
    "due (timers (fst b1) ! 3) = due si"
    "finalCharity (charitySelector (snd b1)) = finalCharity (charitySelector (snd bw))"
    using assms fire_charity_interval [OF assms(1), of rnd]
    by (auto simp: b1_def)
  define b2 where "b2 = (if due si \<le> now (fst bw) then fireTimer (firePage rnd) (hs ! 3) b1 else b1)"
  have s2: "pageShape hs dS dR dA seg h b2" "now (fst b2) = now (fst bw)"
    "drawn (snd b2) = drawn (snd bw)"
    "now (fst b2) < due (timers (fst b2) ! 1)" "now (fst b2) < due (timers (fst b2) ! 3)"
    "finalCharity (charitySelector (snd b2)) = finalCharity (charitySelector (snd bw))"
    using s1 assms(4) fire_amount_interval [OF s1(1), of rnd]
    by (auto simp: b2_def)
  have "foldl (\<lambda>bw h. fireTimer (firePage rnd) h bw) bw
            ((if due ci \<le> now (fst bw) then [handle ci] else []) @
             (if due si \<le> now (fst bw) then [handle si] else []) @ rest) =
          foldl (\<lambda>bw h. fireTimer (firePage rnd) h bw) b2 rest"
    by (simp add: b1_def b2_def h1 h3)
  with s2 show ?thesis by blast
qed

lemma foldl_gone:
  "timers (fst bw) = [] \<Longrightarrow> foldl (\<lambda>bw h. fireTimer fire h bw) bw xs = bw"
  by (induction xs) (simp_all add: fire_gone)

lemma tick_quiet:
  assumes "pageSpinning dS dR dA seg h bw"
    and "now (fst bw) + 1 < dS" and "now (fst bw) + 1 < dR" and "now (fst bw) + 1 < dA"
  shows "pageSpinning dS dR dA seg h (tick (firePage rnd) bw) \<and>
         now (fst (tick (firePage rnd) bw)) = now (fst bw) + 1 \<and>
         drawn (snd (tick (firePage rnd) bw)) = drawn (snd bw) \<and>
         finalCharity (charitySelector (snd (tick (firePage rnd) bw))) =
           finalCharity (charitySelector (snd bw))"
proof -
  from assms(1) obtain s ci cr si st where t: "timers (fst bw) = [s, ci, cr, si, st]"
    and sh: "pageShape [handle s, handle ci, handle cr, handle si, handle st] dS dR dA seg h bw"
    and d: "due s = dS" "due cr = dR" "due st = dA"
    and c: "now (fst bw) < due ci" "now (fst bw) < due si"
    by (rule pageSpinning_facts)
  let ?bw1 = "((fst bw)\<lparr> now := now (fst bw) + 1 \<rparr>, snd bw)"
  have sh1: "pageShape [handle s, handle ci, handle cr, handle si, handle st] dS dR dA seg h ?bw1"
    using sh by (rule pageShape_clock)
  have t1: "timers (fst ?bw1) = [s, ci, cr, si, st]" by (simp add: t)
  from intervals_fired [OF sh1 t1, of rnd "[]"] c
  obtain bw' where r: "foldl (\<lambda>bw h. fireTimer (firePage rnd) h bw) ?bw1
            ((if due ci \<le> now (fst bw) + 1 then [handle ci] else []) @
             (if due si \<le> now (fst bw) + 1 then [handle si] else [])) = bw'"
    and p: "pageShape [handle s, handle ci, handle cr, handle si, handle st] dS dR dA seg h bw'"
      "now (fst bw') = now (fst bw) + 1" "drawn (snd bw') = drawn (snd bw)"
      "now (fst bw') < due (timers (fst bw') ! 1)" "now (fst bw') < due (timers (fst bw') ! 3)"
      "finalCharity (charitySelector (snd bw')) = finalCharity (charitySelector (snd bw))"
    by auto
  have "tick (firePage rnd) bw = bw'"
    using assms(2-4) d r by (simp add: tick_unfold [OF t])
  moreover from p(1) have "map handle (timers (fst bw')) =
      [handle s, handle ci, handle cr, handle si, handle st]"
    by (simp add: pageShape_def)
  ultimately show ?thesis using p by (simp add: pageSpinning_def)
qed

lemma tick_amount:
  assumes "pageSpinning dS dR dA (Some a) h bw"
    and "now (fst bw) + 1 = dA" and "dA < dS" and "dA < dR" and "\<not> showModal h"
  shows "pageSpinning dS (dA + 4000) (dA + 3900)
           (selectedSegment (newRotation 0 (rnd (drawn (snd bw) + 1)) (rnd (drawn (snd bw) + 2))))
           (handleSpinComplete a h) (tick (firePage rnd) bw) \<and>
         now (fst (tick (firePage rnd) bw)) = dA \<and>
         finalCharity (charitySelector (snd (tick (firePage rnd) bw))) =
           selectedCharity_pk (rnd (drawn (snd bw))) \<and>
         drawn (snd (tick (firePage rnd) bw)) = drawn (snd bw) + 3"
proof -
  from assms(1) obtain s ci cr si st where t: "timers (fst bw) = [s, ci, cr, si, st]"
    and sh: "pageShape [handle s, handle ci, handle cr, handle si, handle st] dS dR dA (Some a) h bw"
    and d: "due s = dS" "due cr = dR" "due st = dA"
    and c: "now (fst bw) < due ci" "now (fst bw) < due si"
    by (rule pageSpinning_facts)
  let ?hs = "[handle s, handle ci, handle cr, handle si, handle st]"
  let ?bw1 = "((fst bw)\<lparr> now := now (fst bw) + 1 \<rparr>, snd bw)"
  have sh1: "pageShape ?hs dS dR dA (Some a) h ?bw1"
    using sh by (rule pageShape_clock)
  have t1: "timers (fst ?bw1) = [s, ci, cr, si, st]" by (simp add: t)
  from intervals_fired [OF sh1 t1, of rnd "[handle st]"] c
  obtain bw' where r: "foldl (\<lambda>bw h. fireTimer (firePage rnd) h bw) ?bw1
            ((if due ci \<le> now (fst bw) + 1 then [handle ci] else []) @
             (if due si \<le> now (fst bw) + 1 then [handle si] else []) @ [handle st]) =
             fireTimer (firePage rnd) (?hs ! 4) bw'"
    and p: "pageShape ?hs dS dR dA (Some a) h bw'"
      "now (fst bw') = now (fst bw) + 1" "drawn (snd bw') = drawn (snd bw)"
    by auto
  have "tick (firePage rnd) bw = fireTimer (firePage rnd) (?hs ! 4) bw'"
    using assms(2-4) d r by (simp add: tick_unfold [OF t])
  moreover have nb: "now (fst bw') = dA" using p(2) assms(2) by simp
  moreover note fire_amount_timeout [OF p(1) assms(5), of rnd, unfolded nb p(3)]
  ultimately show ?thesis by simp
qed

lemma tick_stop:
  assumes "pageSpinning dS dR dA seg h bw"
    and "now (fst bw) + 1 = dS" and "dS < dR" and "dS < dA"
  shows "timers (fst (tick (firePage rnd) bw)) = [] \<and>
         home (snd (tick (firePage rnd) bw)) = spinAnimationComplete h \<and>
         pageIdle (tick (firePage rnd) bw) \<and>
         finalCharity (charitySelector (snd (tick (firePage rnd) bw))) =
           finalCharity (charitySelector (snd bw)) \<and>
         drawn (snd (tick (firePage rnd) bw)) = drawn (snd bw) \<and>
         now (fst (tick (firePage rnd) bw)) = now (fst bw) + 1"
proof -
  from assms(1) obtain s ci cr si st where t: "timers (fst bw) = [s, ci, cr, si, st]"
    and sh: "pageShape [handle s, handle ci, handle cr, handle si, handle st] dS dR dA seg h bw"
    and d: "due s = dS" "due cr = dR" "due st = dA"
    by (rule pageSpinning_facts)
  let ?hs = "[handle s, handle ci, handle cr, handle si, handle st]"
  let ?bw1 = "((fst bw)\<lparr> now := now (fst bw) + 1 \<rparr>, snd bw)"
  have sh1: "pageShape ?hs dS dR dA seg h ?bw1"
    using sh by (rule pageShape_clock)
  note st = fire_stop [OF sh1, of rnd]
  have "tick (firePage rnd) bw =
      foldl (\<lambda>bw h. fireTimer (firePage rnd) h bw) (fireTimer (firePage rnd) (?hs ! 0) ?bw1)
        ((if due ci \<le> now (fst bw) + 1 then [handle ci] else []) @
         (if due si \<le> now (fst bw) + 1 then [handle si] else []))"
    using assms(2-4) d by (simp add: tick_unfold [OF t])
  also have "\<dots> = fireTimer (firePage rnd) (?hs ! 0) ?bw1"
    using st(1) by (rule foldl_gone)
  finally show ?thesis using st by simp
qed

lemma advance_quiet:
  assumes "pageSpinning dS dR dA seg h bw"
    and "now (fst bw) + n < dS" and "now (fst bw) + n < dR" and "now (fst bw) + n < dA"
  shows "pageSpinning dS dR dA seg h (advance (firePage rnd) n bw) \<and>
         now (fst (advance (firePage rnd) n bw)) = now (fst bw) + n \<and>
         drawn (snd (advance (firePage rnd) n bw)) = drawn (snd bw) \<and>
         finalCharity (charitySelector (snd (advance (firePage rnd) n bw))) =
           finalCharity (charitySelector (snd bw))"
  using assms(2-4)
proof (induction n)
  case 0
  show ?case using assms(1) by (simp add: advance_0)
next
  case (Suc n)
  then have ih: "pageSpinning dS dR dA seg h (advance (firePage rnd) n bw)"
    and cl: "now (fst (advance (firePage rnd) n bw)) = now (fst bw) + n"
    and dr: "drawn (snd (advance (firePage rnd) n bw)) = drawn (snd bw)"
    and fc: "finalCharity (charitySelector (snd (advance (firePage rnd) n bw))) =
           finalCharity (charitySelector (snd bw))"
    by simp_all
  from Suc.prems cl have "now (fst (advance (firePage rnd) n bw)) + 1 < dS"
    "now (fst (advance (firePage rnd) n bw)) + 1 < dR"
    "now (fst (advance (firePage rnd) n bw)) + 1 < dA" by simp_all
  from tick_quiet [OF ih this, of rnd] cl dr fc show ?case by (simp add: advance_Suc)
qed

lemma click_starts:
  assumes "pageIdle bw" and "\<not> spinDisabled (home (snd bw))"
  shows "pageSpinning (now (fst bw) + 4000) (now (fst bw) + 4000) (now (fst bw) + 3900)
           (selectedSegment (newRotation 0 (rnd (drawn (snd bw) + 1)) (rnd (drawn (snd bw) + 2))))
           (fst (handleStartSpin (home (snd bw)))) (clickPage rnd bw)"
    and "now (fst (clickPage rnd bw)) = now (fst bw)"
    and "drawn (snd (clickPage rnd bw)) = drawn (snd bw) + 3"
    and "finalCharity (charitySelector (snd (clickPage rnd bw))) =
           selectedCharity_pk (rnd (drawn (snd bw)))"
proof -
  from assms(1) have idle: "timers (fst bw) = []"
    "spinInterval (charitySelector (snd bw)) = None"
    "revealTimeout (charitySelector (snd bw)) = None"
    "spinIntervalRef (amountSelector (snd bw)) = None"
    "spinTimeoutRef (amountSelector (snd bw)) = None"
    by (simp_all add: pageIdle_def)
  let ?h = "home (snd bw)"
  let ?h1 = "?h\<lparr> isSpinning := True, selectedAmount := None, txHash := None, showModal := False \<rparr>"
  from assms(2) have ns: "\<not> isSpinning ?h" "\<not> showModal ?h"
    by (simp_all add: spinDisabled_def)
  have c: "clickSpin ?h = (?h1, [4000])" "fst (handleStartSpin ?h) = ?h1"
    using ns by (simp_all add: clickSpin_def spinDisabled_def handleStartSpin_def)
  have ne: "?h1 \<noteq> ?h"
  proof
    assume "?h1 = ?h"
    then have "isSpinning ?h1 = isSpinning ?h" by simp
    then show False using ns by simp
  qed
  show "pageSpinning (now (fst bw) + 4000) (now (fst bw) + 4000) (now (fst bw) + 3900)
           (selectedSegment (newRotation 0 (rnd (drawn (snd bw) + 1)) (rnd (drawn (snd bw) + 2))))
           (fst (handleStartSpin (home (snd bw)))) (clickPage rnd bw)"
    using idle ne
    by (simp add: c clickPage_def page_defs Let_def pageSpinning_def pageShape_def)
  show "now (fst (clickPage rnd bw)) = now (fst bw)"
    using idle ne by (simp add: c clickPage_def page_defs Let_def)
  show "drawn (snd (clickPage rnd bw)) = drawn (snd bw) + 3"
    using idle ne by (simp add: c clickPage_def page_defs Let_def)
  show "finalCharity (charitySelector (snd (clickPage rnd bw))) =
           selectedCharity_pk (rnd (drawn (snd bw)))"
    using idle ne by (simp add: c clickPage_def page_defs Let_def)
qed

text \<open>
  A render of the root view during a spin, with the spinning flag still up: both effects
  run again, the timers of the selectors are replaced by new ones counted from the time
  of the render, and the charity selector draws again.
\<close>

lemma render_restarts:
  assumes "pageShape hs dS dR dA seg h bw" and "h' \<noteq> h" and "isSpinning h'"
  shows "pageSpinning dS (now (fst bw) + 4000) (now (fst bw) + 3900)
           (selectedSegment (newRotation 0 (rnd (drawn (snd bw) + 1)) (rnd (drawn (snd bw) + 2))))
           h' (setHome rnd h' bw)"
    and "now (fst (setHome rnd h' bw)) = now (fst bw)"
    and "drawn (snd (setHome rnd h' bw)) = drawn (snd bw) + 3"
    and "finalCharity (charitySelector (snd (setHome rnd h' bw))) =
           selectedCharity_pk (rnd (drawn (snd bw)))"
proof -
  from assms(1) obtain s ci cr si st where t: "timers (fst bw) = [s, ci, cr, si, st]"
    and hs: "hs = [handle s, handle ci, handle cr, handle si, handle st]"
    by (rule pageShape_timers)
  from assms(1) t hs have d: "handle s \<noteq> handle ci" "handle s \<noteq> handle cr"
    "handle s \<noteq> handle si" "handle s \<noteq> handle st" "handle ci \<noteq> handle cr"
    "handle ci \<noteq> handle si" "handle ci \<noteq> handle st" "handle cr \<noteq> handle si"
    "handle cr \<noteq> handle st" "handle si \<noteq> handle st"
    and n: "handle s < nextHandle (fst bw)"
    and n5: "handle s < nextHandle (fst bw)" "handle ci < nextHandle (fst bw)"
      "handle cr < nextHandle (fst bw)" "handle si < nextHandle (fst bw)"
      "handle st < nextHandle (fst bw)"
    and f: "home (snd bw) = h" "callback s = SpinAnimationComplete"
      "period s = None" "due s = dS"
      "spinInterval (charitySelector (snd bw)) = Some (handle ci)"
      "revealTimeout (charitySelector (snd bw)) = Some (handle cr)"
      "spinIntervalRef (amountSelector (snd bw)) = Some (handle si)"
      "spinTimeoutRef (amountSelector (snd bw)) = Some (handle st)"
    by (auto simp: pageShape_def)
  have fr: "nextHandle (fst bw) \<noteq> handle s"
    "Suc (nextHandle (fst bw)) \<noteq> handle s"
    "Suc (Suc (nextHandle (fst bw))) \<noteq> handle s"
    "Suc (Suc (Suc (nextHandle (fst bw)))) \<noteq> handle s"
    "nextHandle (fst bw) \<noteq> handle ci"
    "Suc (nextHandle (fst bw)) \<noteq> handle ci"
    "Suc (Suc (nextHandle (fst bw))) \<noteq> handle ci"
    "Suc (Suc (Suc (nextHandle (fst bw)))) \<noteq> handle ci"
    "nextHandle (fst bw) \<noteq> handle cr"
    "Suc (nextHandle (fst bw)) \<noteq> handle cr"
    "Suc (Suc (nextHandle (fst bw))) \<noteq> handle cr"
    "Suc (Suc (Suc (nextHandle (fst bw)))) \<noteq> handle cr"
    "nextHandle (fst bw) \<noteq> handle si"
    "Suc (nextHandle (fst bw)) \<noteq> handle si"
    "Suc (Suc (nextHandle (fst bw))) \<noteq> handle si"
    "Suc (Suc (Suc (nextHandle (fst bw)))) \<noteq> handle si"
    "nextHandle (fst bw) \<noteq> handle st"
    "Suc (nextHandle (fst bw)) \<noteq> handle st"
    "Suc (Suc (nextHandle (fst bw))) \<noteq> handle st"
    "Suc (Suc (Suc (nextHandle (fst bw)))) \<noteq> handle st"
    using n5 by simp_all
  have r: "fst (setHome rnd h' bw) =
      (fst bw)\<lparr> nextHandle := nextHandle (fst bw) + 4,
        timers := [s,
          \<lparr> handle = nextHandle (fst bw), due = now (fst bw) + 100, period = Some 100,
            callback = CharityIntervalTick \<rparr>,
          \<lparr> handle = nextHandle (fst bw) + 1, due = now (fst bw) + 4000, period = None,
            callback = CharityReveal (selectedCharity_pk (rnd (drawn (snd bw)))) \<rparr>,
          \<lparr> handle = nextHandle (fst bw) + 2, due = now (fst bw) + 100, period = Some 100,
            callback = SpinIntervalTick \<rparr>,
          \<lparr> handle = nextHandle (fst bw) + 3, due = now (fst bw) + 3900, period = None,
            callback = SpinTimeoutDone (selectedSegment
              (newRotation 0 (rnd (drawn (snd bw) + 1)) (rnd (drawn (snd bw) + 2)))) \<rparr>] \<rparr>"
    using d d [symmetric] fr fr [symmetric] f assms(2,3)
    by (simp add: t page_defs Let_def)
  have r2: "home (snd (setHome rnd h' bw)) = h'"
    "spinInterval (charitySelector (snd (setHome rnd h' bw))) = Some (nextHandle (fst bw))"
    "revealTimeout (charitySelector (snd (setHome rnd h' bw))) = Some (nextHandle (fst bw) + 1)"
    "spinIntervalRef (amountSelector (snd (setHome rnd h' bw))) = Some (nextHandle (fst bw) + 2)"
    "spinTimeoutRef (amountSelector (snd (setHome rnd h' bw))) = Some (nextHandle (fst bw) + 3)"
    "finalCharity (charitySelector (snd (setHome rnd h' bw))) =
       selectedCharity_pk (rnd (drawn (snd bw)))"
    "drawn (snd (setHome rnd h' bw)) = drawn (snd bw) + 3"
    using d d [symmetric] fr fr [symmetric] f assms(2,3)
    by (simp_all add: t page_defs Let_def)
  show "pageSpinning dS (now (fst bw) + 4000) (now (fst bw) + 3900)
           (selectedSegment (newRotation 0 (rnd (drawn (snd bw) + 1)) (rnd (drawn (snd bw) + 2))))
           h' (setHome rnd h' bw)"
    using n f(2-4) assms(3)
    by (simp add: pageSpinning_def pageShape_def r r2)
  show "now (fst (setHome rnd h' bw)) = now (fst bw)" by (simp add: r)
  show "drawn (snd (setHome rnd h' bw)) = drawn (snd bw) + 3" by (rule r2(7))
  show "finalCharity (charitySelector (snd (setHome rnd h' bw))) =
           selectedCharity_pk (rnd (drawn (snd bw)))" by (rule r2(6))
qed

text \<open>A render of the page at rest with the spinning flag down leaves it at rest.\<close>

lemma render_idle:
  assumes "pageIdle bw" and "\<not> isSpinning h"
  shows "pageIdle (setHome rnd h bw)"
    and "home (snd (setHome rnd h bw)) = h"
    and "drawn (snd (setHome rnd h bw)) = drawn (snd bw)"
    and "now (fst (setHome rnd h bw)) = now (fst bw)"
    and "finalCharity (charitySelector (snd (setHome rnd h bw))) =
           finalCharity (charitySelector (snd bw))"
  using assms by (auto simp: pageIdle_def page_defs Let_def)

lemma page_quiet:
  "timers (fst bw) = [] \<Longrightarrow> home (snd (advance fire n bw)) = home (snd bw) \<and>
     timers (fst (advance fire n bw)) = []"
  using quiet [of bw fire n] by simp

lemma idle_quiet:
  assumes "pageIdle bw"
  shows "pageIdle (advance fire n bw)" and "snd (advance fire n bw) = snd bw"
    and "now (fst (advance fire n bw)) = now (fst bw) + n"
proof -
  from assms have t: "timers (fst bw) = []" by (simp add: pageIdle_def)
  from quiet [OF t, of fire n] assms show "pageIdle (advance fire n bw)"
    and "snd (advance fire n bw) = snd bw"
    by (simp_all add: pageIdle_def)
  show "now (fst (advance fire n bw)) = now (fst bw) + n"
  proof (induction n)
    case 0
    show ?case by (simp add: advance_0)
  next
    case (Suc n)
    from quiet [OF t, of fire n] have "timers (fst (advance fire n bw)) = []" by simp
    from tick_now [OF this, of fire] Suc show ?case by (simp add: advance_Suc)
  qed
qed

text \<open>
  The three phases of a spin in the page, left to its timers: until the amount callback at
  3900 ms, from there until the timeout of the root view at 4000 ms, and at rest from
  then on. The charity selector holds its first draw in the first phase and its second
  draw afterwards.
\<close>

lemma page_spin_phases:
  assumes "pageIdle bw" and "\<not> spinDisabled (home (snd bw))"
    and "selectedSegment (newRotation 0 (rnd (drawn (snd bw) + 1)) (rnd (drawn (snd bw) + 2))) = Some a"
  shows "k < 3900 \<Longrightarrow>
      pageSpinning (now (fst bw) + 4000) (now (fst bw) + 4000) (now (fst bw) + 3900) (Some a)
        (fst (handleStartSpin (home (snd bw)))) (advance (firePage rnd) k (clickPage rnd bw)) \<and>
      now (fst (advance (firePage rnd) k (clickPage rnd bw))) = now (fst bw) + k \<and>
      drawn (snd (advance (firePage rnd) k (clickPage rnd bw))) = drawn (snd bw) + 3 \<and>
      finalCharity (charitySelector (snd (advance (firePage rnd) k (clickPage rnd bw)))) =
        selectedCharity_pk (rnd (drawn (snd bw)))"
    and "j < 100 \<Longrightarrow>
      pageSpinning (now (fst bw) + 4000) (now (fst bw) + 7900) (now (fst bw) + 7800)
        (selectedSegment (newRotation 0 (rnd (drawn (snd bw) + 4)) (rnd (drawn (snd bw) + 5))))
        (handleSpinComplete a (fst (handleStartSpin (home (snd bw)))))
        (advance (firePage rnd) (3900 + j) (clickPage rnd bw)) \<and>
      now (fst (advance (firePage rnd) (3900 + j) (clickPage rnd bw))) = now (fst bw) + 3900 + j \<and>
      drawn (snd (advance (firePage rnd) (3900 + j) (clickPage rnd bw))) = drawn (snd bw) + 6 \<and>
      finalCharity (charitySelector (snd (advance (firePage rnd) (3900 + j) (clickPage rnd bw)))) =
        selectedCharity_pk (rnd (drawn (snd bw) + 3))"
    and "pageIdle (advance (firePage rnd) (4000 + m) (clickPage rnd bw)) \<and>
      home (snd (advance (firePage rnd) (4000 + m) (clickPage rnd bw))) =
        spinAnimationComplete (handleSpinComplete a (fst (handleStartSpin (home (snd bw))))) \<and>
      now (fst (advance (firePage rnd) (4000 + m) (clickPage rnd bw))) = now (fst bw) + 4000 + m \<and>
      drawn (snd (advance (firePage rnd) (4000 + m) (clickPage rnd bw))) = drawn (snd bw) + 6 \<and>
      finalCharity (charitySelector (snd (advance (firePage rnd) (4000 + m) (clickPage rnd bw)))) =
        selectedCharity_pk (rnd (drawn (snd bw) + 3))"
proof -
  let ?fp = "firePage rnd"
  let ?c = "clickPage rnd bw"
  let ?T = "now (fst bw)"
  let ?D = "drawn (snd bw)"
  let ?h1 = "fst (handleStartSpin (home (snd bw)))"
  let ?seg = "selectedSegment (newRotation 0 (rnd (?D + 4)) (rnd (?D + 5)))"
  note cs = click_starts [OF assms(1,2), of rnd, unfolded assms(3)]
  have nm: "\<not> showModal ?h1"
    using assms(2) by (simp add: handleStartSpin_def spinDisabled_def)
  have A: "pageSpinning (?T + 4000) (?T + 4000) (?T + 3900) (Some a) ?h1 (advance ?fp k ?c) \<and>
        now (fst (advance ?fp k ?c)) = ?T + k \<and>
        drawn (snd (advance ?fp k ?c)) = ?D + 3 \<and>
        finalCharity (charitySelector (snd (advance ?fp k ?c))) = selectedCharity_pk (rnd ?D)"
    if "k < 3900" for k
    using advance_quiet [OF cs(1), of k rnd] cs(2,3,4) that by simp
  then show "k < 3900 \<Longrightarrow>
      pageSpinning (?T + 4000) (?T + 4000) (?T + 3900) (Some a) ?h1 (advance ?fp k ?c) \<and>
      now (fst (advance ?fp k ?c)) = ?T + k \<and>
      drawn (snd (advance ?fp k ?c)) = ?D + 3 \<and>
      finalCharity (charitySelector (snd (advance ?fp k ?c))) = selectedCharity_pk (rnd ?D)" .
  let ?a = "advance ?fp 3900 ?c"
  have B0: "pageSpinning (?T + 4000) (?T + 7900) (?T + 7800) ?seg (handleSpinComplete a ?h1) ?a"
    and B0n: "now (fst ?a) = ?T + 3900" and B0d: "drawn (snd ?a) = ?D + 6"
    and B0f: "finalCharity (charitySelector (snd ?a)) = selectedCharity_pk (rnd (?D + 3))"
  proof -
    from A [of 3899] have p: "pageSpinning (?T + 4000) (?T + 4000) (?T + 3900) (Some a) ?h1
        (advance ?fp 3899 ?c)" and n: "now (fst (advance ?fp 3899 ?c)) = ?T + 3899"
      and d: "drawn (snd (advance ?fp 3899 ?c)) = ?D + 3" by simp_all
    have e: "?a = tick ?fp (advance ?fp 3899 ?c)"
      using advance_Suc [of ?fp 3899 ?c] by simp
    have i: "?D + 3 + 1 = ?D + 4" "?D + 3 + 2 = ?D + 5" "?D + 3 + 3 = ?D + 6" by simp_all
    from tick_amount [OF p _ _ _ nm, of rnd] n
    have "pageSpinning (?T + 4000) (?T + 3900 + 4000) (?T + 3900 + 3900)
           (selectedSegment (newRotation 0 (rnd (drawn (snd (advance ?fp 3899 ?c)) + 1))
              (rnd (drawn (snd (advance ?fp 3899 ?c)) + 2))))
           (handleSpinComplete a ?h1) (tick ?fp (advance ?fp 3899 ?c)) \<and>
         now (fst (tick ?fp (advance ?fp 3899 ?c))) = ?T + 3900 \<and>
         finalCharity (charitySelector (snd (tick ?fp (advance ?fp 3899 ?c)))) =
           selectedCharity_pk (rnd (drawn (snd (advance ?fp 3899 ?c)))) \<and>
         drawn (snd (tick ?fp (advance ?fp 3899 ?c))) = drawn (snd (advance ?fp 3899 ?c)) + 3"
      by simp
    then show "pageSpinning (?T + 4000) (?T + 7900) (?T + 7800) ?seg (handleSpinComplete a ?h1) ?a"
      and "now (fst ?a) = ?T + 3900" and "drawn (snd ?a) = ?D + 6"
      and "finalCharity (charitySelector (snd ?a)) = selectedCharity_pk (rnd (?D + 3))"
      unfolding e d i by (simp_all add: add.assoc)
  qed
  have B: "pageSpinning (?T + 4000) (?T + 7900) (?T + 7800) ?seg (handleSpinComplete a ?h1)
        (advance ?fp (3900 + j) ?c) \<and>
        now (fst (advance ?fp (3900 + j) ?c)) = ?T + 3900 + j \<and>
        drawn (snd (advance ?fp (3900 + j) ?c)) = ?D + 6 \<and>
        finalCharity (charitySelector (snd (advance ?fp (3900 + j) ?c))) =
          selectedCharity_pk (rnd (?D + 3))"
    if "j < 100" for j
    using advance_quiet [OF B0, of j rnd] B0n B0d B0f that by (simp add: advance_add)
  then show "j < 100 \<Longrightarrow>
      pageSpinning (?T + 4000) (?T + 7900) (?T + 7800) ?seg (handleSpinComplete a ?h1)
        (advance ?fp (3900 + j) ?c) \<and>
      now (fst (advance ?fp (3900 + j) ?c)) = ?T + 3900 + j \<and>
      drawn (snd (advance ?fp (3900 + j) ?c)) = ?D + 6 \<and>
      finalCharity (charitySelector (snd (advance ?fp (3900 + j) ?c))) =
        selectedCharity_pk (rnd (?D + 3))" .
  let ?b = "advance ?fp 4000 ?c"
  have C0: "pageIdle ?b \<and>
      home (snd ?b) = spinAnimationComplete (handleSpinComplete a ?h1) \<and>
      now (fst ?b) = ?T + 4000 \<and> drawn (snd ?b) = ?D + 6 \<and>
      finalCharity (charitySelector (snd ?b)) = selectedCharity_pk (rnd (?D + 3))"
  proof -
    from B [of 99] have p: "pageSpinning (?T + 4000) (?T + 7900) (?T + 7800) ?seg
        (handleSpinComplete a ?h1) (advance ?fp 3999 ?c)"
      and n: "now (fst (advance ?fp 3999 ?c)) = ?T + 3999"
      and d: "drawn (snd (advance ?fp 3999 ?c)) = ?D + 6"
      and f: "finalCharity (charitySelector (snd (advance ?fp 3999 ?c))) =
          selectedCharity_pk (rnd (?D + 3))" by simp_all
    have e: "?b = tick ?fp (advance ?fp 3999 ?c)"
      using advance_Suc [of ?fp 3999 ?c] by simp
    from tick_stop [OF p, of rnd] n d f show ?thesis unfolding e by simp
  qed
  from idle_quiet [of ?b ?fp m] C0
  show "pageIdle (advance ?fp (4000 + m) ?c) \<and>
      home (snd (advance ?fp (4000 + m) ?c)) =
        spinAnimationComplete (handleSpinComplete a ?h1) \<and>
      now (fst (advance ?fp (4000 + m) ?c)) = ?T + 4000 + m \<and>
      drawn (snd (advance ?fp (4000 + m) ?c)) = ?D + 6 \<and>
      finalCharity (charitySelector (snd (advance ?fp (4000 + m) ?c))) =
        selectedCharity_pk (rnd (?D + 3))"
    by (simp add: advance_add)
qed

lemma page_spin:
  assumes "pageIdle bw" and "\<not> spinDisabled (home (snd bw))"
    and "selectedSegment (newRotation 0 (rnd (drawn (snd bw) + 1)) (rnd (drawn (snd bw) + 2))) = Some a"
  shows "home (snd (advance (firePage rnd) n (clickPage rnd bw))) =
     (if n < 3900 then fst (handleStartSpin (home (snd bw)))
      else if n < 4000 then handleSpinComplete a (fst (handleStartSpin (home (snd bw))))
      else spinAnimationComplete (handleSpinComplete a (fst (handleStartSpin (home (snd bw))))))"
proof -
  note ph = page_spin_phases [OF assms]
  show ?thesis
  proof (cases "n < 3900")
    case True
    with ph(1) [of n] show ?thesis by (simp add: pageSpinning_def pageShape_def)
  next
    case False
    then obtain j where j: "n = 3900 + j" using le_Suc_ex [of 3900 n] by auto
    show ?thesis
    proof (cases "j < 100")
      case True
      with ph(2) [of j] j show ?thesis by (simp add: pageSpinning_def pageShape_def)
    next
      case False
      then obtain m where m: "j = 100 + m" using le_Suc_ex [of 100 j] by auto
      then have "n = 4000 + m" using j by simp
      with ph(3) [of m] show ?thesis by simp
    qed
  qed
qed

text \<open>
  Claim C6 in the page. From the page at rest, with the spin button enabled, a click starts
  a spin. At 3900 ms the amount callback changes the state of the root view, which
  renders with \<^verbatim>\<open>isSpinning\<close> still true; the effect of the charity selector runs again,
  its cleanup clears the reveal timeout that held the charity drawn at the start, and a
  new timeout is due at 7900 ms. At 4000 ms the timeout of the root view lowers
  \<^verbatim>\<open>isSpinning\<close> and the cleanup clears that one too. So whatever time passes,
  \<^verbatim>\<open>handleCharitySelected\<close> is never called: the selected charity of the root view is
  the one it held before the click, while the dialog opens at 3900 ms with the amount of
  the spin and the spinning flag drops at 4000 ms.
\<close>

theorem charity_never_reported_in_page:
  assumes "pageIdle bw" and "\<not> spinDisabled (home (snd bw))"
    and "0 \<le> rnd (drawn (snd bw) + 1)" and "0 \<le> rnd (drawn (snd bw) + 2)"
  shows "selectedCharity (home (snd (advance (firePage rnd) n (clickPage rnd bw)))) =
           selectedCharity (home (snd bw)) \<and>
         showModal (home (snd (advance (firePage rnd) n (clickPage rnd bw)))) = (3900 \<le> n) \<and>
         isSpinning (home (snd (advance (firePage rnd) n (clickPage rnd bw)))) = (n < 4000) \<and>
         (3900 \<le> n \<longrightarrow>
            selectedAmount (home (snd (advance (firePage rnd) n (clickPage rnd bw)))) =
              selectedSegment (newRotation 0 (rnd (drawn (snd bw) + 1)) (rnd (drawn (snd bw) + 2))))"
proof -
  from selectedSegment_listed [OF newRotation_nonneg [OF assms(3,4)]]
  obtain k where "selectedSegment (newRotation 0 (rnd (drawn (snd bw) + 1))
      (rnd (drawn (snd bw) + 2))) = Some (DONATION_AMOUNTS ! k)" by blast
  from page_spin [OF assms(1,2) this, of n] this assms(2)
  show ?thesis
    by (simp add: handleStartSpin_def spinDisabled_def handleSpinComplete_def
        spinAnimationComplete_def)
qed

theorem charity_never_reported_in_page_witness:
  "selectedCharity (home (snd (advance (firePage (\<lambda>i. 1/2)) 3900
      (clickPage (\<lambda>i. 1/2) mountPage)))) = Some (CHARITIES ! 0) \<and>
   showModal (home (snd (advance (firePage (\<lambda>i. 1/2)) 3900
      (clickPage (\<lambda>i. 1/2) mountPage)))) \<and>
   selectedCharity (home (snd (advance (firePage (\<lambda>i. 1/2)) 9000
      (clickPage (\<lambda>i. 1/2) mountPage)))) = Some (CHARITIES ! 0) \<and>
   \<not> isSpinning (home (snd (advance (firePage (\<lambda>i. 1/2)) 9000
      (clickPage (\<lambda>i. 1/2) mountPage))))"
proof -
  have i: "pageIdle mountPage"
    by (simp add: pageIdle_def mountPage_def startBrowser_def mountPicker_def mountSpinner_def)
  have e: "\<not> spinDisabled (home (snd mountPage))"
    by (simp add: mountPage_def initial_def spinDisabled_def)
  have r: "(0::real) \<le> (\<lambda>i::nat. 1/2) (drawn (snd mountPage) + 1)"
    "(0::real) \<le> (\<lambda>i::nat. 1/2) (drawn (snd mountPage) + 2)" by simp_all
  have c: "selectedCharity (home (snd mountPage)) = Some (CHARITIES ! 0)"
    by (simp add: mountPage_def initial_charity)
  from charity_never_reported_in_page [OF i e r, of 3900]
    charity_never_reported_in_page [OF i e r, of 9000] c
  show ?thesis by simp
qed

section \<open>The amount callback and a receipt that arrives during the spin\<close>

text \<open>
  A receipt that arrives during a spin, \<open>k\<close> ms after the click with \<open>100 < k < 3900\<close>: the
  root view renders with \<^verbatim>\<open>isSpinning\<close> true, both effects run again, and the timeout of
  the amount selector is now due 3900 ms after the receipt, later than the timeout of
  the root view, whose render at 4000 ms clears it.
\<close>

lemma late_receipt:
  assumes "pageIdle bw" and "\<not> spinDisabled (home (snd bw))" and "100 < k" and "k < 3900"
  shows "m \<le> k \<Longrightarrow> home (snd (advance (firePage rnd) m (clickPage rnd bw))) =
           fst (handleStartSpin (home (snd bw)))"
    and "k + n < 4000 \<Longrightarrow>
      home (snd (advance (firePage rnd) n
        (receiptPage rnd hash (advance (firePage rnd) k (clickPage rnd bw))))) =
      handleDonationComplete hash (fst (handleStartSpin (home (snd bw))))"
    and "4000 \<le> k + n \<Longrightarrow>
      pageIdle (advance (firePage rnd) n
        (receiptPage rnd hash (advance (firePage rnd) k (clickPage rnd bw)))) \<and>
      home (snd (advance (firePage rnd) n
        (receiptPage rnd hash (advance (firePage rnd) k (clickPage rnd bw))))) =
      spinAnimationComplete (handleDonationComplete hash (fst (handleStartSpin (home (snd bw)))))"
proof -
  let ?fp = "firePage rnd"
  let ?c = "clickPage rnd bw"
  let ?T = "now (fst bw)"
  let ?h1 = "fst (handleStartSpin (home (snd bw)))"
  let ?h2 = "handleDonationComplete hash ?h1"
  note cs = click_starts [OF assms(1,2), of rnd]
  define seg where
    "seg = selectedSegment (newRotation 0 (rnd (drawn (snd bw) + 1)) (rnd (drawn (snd bw) + 2)))"
  have A: "pageSpinning (?T + 4000) (?T + 4000) (?T + 3900) seg ?h1 (advance ?fp i ?c) \<and>
        now (fst (advance ?fp i ?c)) = ?T + i" if "i < 3900" for i
    using advance_quiet [OF cs(1), of i rnd] cs(2) that by (simp add: seg_def)
  show "m \<le> k \<Longrightarrow> home (snd (advance ?fp m ?c)) = ?h1"
    using A [of m] assms(4) by (simp add: pageSpinning_def pageShape_def)
  let ?a = "advance ?fp k ?c"
  from A [OF assms(4)] have sh: "pageShape (map handle (timers (fst ?a))) (?T + 4000) (?T + 4000)
      (?T + 3900) seg ?h1 ?a" and na: "now (fst ?a) = ?T + k" and ha: "home (snd ?a) = ?h1"
    by (simp_all add: pageSpinning_def pageShape_def)
  have ne: "?h2 \<noteq> ?h1"
  proof
    assume "?h2 = ?h1"
    then have "txHash ?h2 = txHash ?h1" by simp
    then show False using assms(2)
      by (simp add: handleDonationComplete_def handleStartSpin_def spinDisabled_def)
  qed
  have sp: "isSpinning ?h2"
    using assms(2) by (simp add: handleDonationComplete_def handleStartSpin_def spinDisabled_def)
  let ?r = "receiptPage rnd hash ?a"
  have re: "?r = setHome rnd ?h2 ?a" by (simp add: receiptPage_def ha)
  from render_restarts [OF sh ne sp, of rnd] na
  obtain seg' where R: "pageSpinning (?T + 4000) (?T + k + 4000) (?T + k + 3900) seg' ?h2 ?r"
    and nr: "now (fst ?r) = ?T + k"
    unfolding re by simp
  have B: "pageSpinning (?T + 4000) (?T + k + 4000) (?T + k + 3900) seg' ?h2 (advance ?fp j ?r) \<and>
        now (fst (advance ?fp j ?r)) = ?T + k + j" if "k + j < 4000" for j
    using advance_quiet [OF R, of j rnd] nr that assms(3) by simp
  show "k + n < 4000 \<Longrightarrow> home (snd (advance ?fp n ?r)) = ?h2"
    using B [of n] by (simp add: pageSpinning_def pageShape_def)
  let ?j0 = "3999 - k"
  let ?b = "advance ?fp (Suc ?j0) ?r"
  have C0: "pageIdle ?b \<and> home (snd ?b) = spinAnimationComplete ?h2"
  proof -
    from B [of ?j0] assms(4) have p: "pageSpinning (?T + 4000) (?T + k + 4000) (?T + k + 3900)
        seg' ?h2 (advance ?fp ?j0 ?r)"
      and n: "now (fst (advance ?fp ?j0 ?r)) = ?T + 3999" by simp_all
    from tick_stop [OF p, of rnd] n assms(3) show ?thesis by (simp add: advance_Suc)
  qed
  show "pageIdle (advance ?fp n ?r) \<and> home (snd (advance ?fp n ?r)) = spinAnimationComplete ?h2"
    if "4000 \<le> k + n"
  proof -
    from that assms(4) have "Suc ?j0 \<le> n" by simp
    then obtain m where m: "n = Suc ?j0 + m" using le_Suc_ex by blast
    have e: "advance ?fp n ?r = advance ?fp m ?b" by (simp only: m advance_add)
    from idle_quiet(1,2) [of ?b ?fp m] C0 show ?thesis by (simp add: e)
  qed
qed

text \<open>The segment drawn when both results of \<^verbatim>\<open>Math.random()\<close> are one half.\<close>

lemma segment_at_half:
  "nat \<lfloor>jsDiv (jsRemainder (jsAdd (jsMul (jsAdd 5 (jsMul (1 / 2) 5)) 360)
      (jsMul (of_int \<lfloor>jsMul (1 / 2) 8\<rfloor>) 45)) 360) 45\<rfloor> mod 8 = 0"
proof -
  have h: "double (of_int 5 * 2 powi (- 1)) = of_int 5 * 2 powi (- 1)"
    "double (of_int 15 * 2 powi (- 1)) = of_int 15 * 2 powi (- 1)"
    by (rule double_exact; simp)+
  have i: "double (of_int 2700) = of_int 2700" "double (of_int 4) = of_int 4"
    "double (of_int 180) = of_int 180" "double (of_int 2880) = of_int 2880"
    "double (of_int 0) = of_int 0"
    by (rule double_of_int; simp)+
  have a: "jsMul (1 / 2) 5 = 5 / 2" using h(1) by (simp add: jsMul_def power_int_minus)
  have b: "jsAdd 5 (5 / 2) = 15 / 2" using h(2) by (simp add: jsAdd_def power_int_minus)
  have c: "jsMul (15 / 2) 360 = 2700" using i(1) by (simp add: jsMul_def)
  have d: "jsMul (1 / 2) 8 = 4" using i(2) by (simp add: jsMul_def)
  have e: "jsMul (of_int \<lfloor>4 :: real\<rfloor>) 45 = 180" using i(3) by (simp add: jsMul_def)
  have f: "jsAdd 2700 180 = 2880" using i(4) by (simp add: jsAdd_def)
  have g: "jsRemainder 2880 360 = 0" by (simp add: jsRemainder_def)
  have j: "jsDiv 0 45 = 0" using i(5) by (simp add: jsDiv_def)
  show ?thesis by (simp only: a b c d e f g j) simp
qed

text \<open>
  Claim C5 in the page. From the page at rest, with the spin button enabled, a click starts
  a spin. Left to its timers, the spin reports its amount once, 3900 ms after the click:
  the selected amount of the root view is absent before and is from then on the element
  of the eight fixed amounts at the index obtained from the rotation, which is five full
  turns plus five times the first result of \<^verbatim>\<open>Math.random()\<close> turns, plus 45 degrees for
  each of the segments counted by 8 times the second result rounded down; the index is
  the rotation reduced modulo 360, divided by the segment angle 45 and rounded down,
  modulo the segment count 8.

  When instead \<open>k\<close> ms after the click, with \<open>100 < k < 3900\<close>, the promise of a donation
  attempt started in the dialog of the previous spin resolves,
  \<^verbatim>\<open>handleDonationComplete\<close> stores the receipt and the root view renders. The effect of
  the amount selector lists \<^verbatim>\<open>onSpinComplete\<close> among its dependencies and runs again: its
  cleanup clears the timeout that held the amount of the spin, and the new timeout is due
  3900 ms after the receipt, later than the timeout of the root view. That one lowers
  \<^verbatim>\<open>isSpinning\<close> 4000 ms after the click and the cleanup clears the new timeout too. So
  whatever time passes, \<^verbatim>\<open>handleSpinComplete\<close> is never called in this spin: the
  selected amount stays absent and the dialog closed, the spinning flag drops at 4000 ms,
  and no timer is left.
\<close>

theorem amount_reported_unless_receipt_arrives:
  assumes "pageIdle bw" and "\<not> spinDisabled (home (snd bw))" and "100 < k" and "k < 3900"
    and "0 \<le> rnd (drawn (snd bw) + 1)" and "0 \<le> rnd (drawn (snd bw) + 2)"
  shows "\<exists>i<8.
    i = nat \<lfloor>jsDiv (jsRemainder
          (jsAdd (jsMul (jsAdd 5 (jsMul (rnd (drawn (snd bw) + 1)) 5)) 360)
             (jsMul (of_int \<lfloor>jsMul (rnd (drawn (snd bw) + 2)) 8\<rfloor>) 45)) 360) 45\<rfloor> mod 8 \<and>
    DONATION_AMOUNTS ! i \<in> {0.05, 0.10, 0.25, 0.50, 1.00, 2.00, 5.00, 10.00} \<and>
    selectedAmount (home (snd (advance (firePage rnd) n (clickPage rnd bw)))) =
      (if n < 3900 then None else Some (DONATION_AMOUNTS ! i)) \<and>
    selectedAmount (home (snd (advance (firePage rnd) n
      (receiptPage rnd hash (advance (firePage rnd) k (clickPage rnd bw)))))) = None \<and>
    \<not> showModal (home (snd (advance (firePage rnd) n
      (receiptPage rnd hash (advance (firePage rnd) k (clickPage rnd bw)))))) \<and>
    isSpinning (home (snd (advance (firePage rnd) n
      (receiptPage rnd hash (advance (firePage rnd) k (clickPage rnd bw)))))) = (k + n < 4000) \<and>
    (4000 \<le> k + n \<longrightarrow>
      timers (fst (advance (firePage rnd) n
        (receiptPage rnd hash (advance (firePage rnd) k (clickPage rnd bw))))) = [])"
proof -
  let ?late = "advance (firePage rnd) n
      (receiptPage rnd hash (advance (firePage rnd) k (clickPage rnd bw)))"
  from selectedSegment_listed [OF newRotation_nonneg [OF assms(5,6)]]
  obtain i where i: "i < 8"
    "selectedSegment (newRotation 0 (rnd (drawn (snd bw) + 1)) (rnd (drawn (snd bw) + 2))) =
       Some (DONATION_AMOUNTS ! i)"
    "i = nat \<lfloor>jsDiv (jsRemainder
          (jsAdd (jsMul (jsAdd 5 (jsMul (rnd (drawn (snd bw) + 1)) 5)) 360)
             (jsMul (of_int \<lfloor>jsMul (rnd (drawn (snd bw) + 2)) 8\<rfloor>) 45)) 360) 45\<rfloor> mod 8"
    unfolding newRotation_formula by blast
  have "DONATION_AMOUNTS ! i \<in> set DONATION_AMOUNTS"
    using i(1) amounts_table by (intro nth_mem) simp
  then have m: "DONATION_AMOUNTS ! i \<in> {0.05, 0.10, 0.25, 0.50, 1.00, 2.00, 5.00, 10.00}"
    using amounts_table by simp
  have a: "selectedAmount (home (snd (advance (firePage rnd) n (clickPage rnd bw)))) =
      (if n < 3900 then None else Some (DONATION_AMOUNTS ! i))"
    using page_spin [OF assms(1,2) i(2), of n] assms(2)
    by (simp add: handleStartSpin_def spinDisabled_def handleSpinComplete_def
        spinAnimationComplete_def)
  note k = assms(1-4)
  have b: "selectedAmount (home (snd ?late)) = None \<and> \<not> showModal (home (snd ?late)) \<and>
    isSpinning (home (snd ?late)) = (k + n < 4000) \<and>
    (4000 \<le> k + n \<longrightarrow> timers (fst ?late) = [])"
  proof (cases "k + n < 4000")
    case True
    with late_receipt(2) [OF k, where n = n and rnd = rnd and hash = hash] assms(2)
    show ?thesis
      by (simp add: handleStartSpin_def spinDisabled_def handleDonationComplete_def)
  next
    case False
    with late_receipt(3) [OF k, where n = n and rnd = rnd and hash = hash] assms(2)
    show ?thesis
      by (simp add: handleStartSpin_def spinDisabled_def handleDonationComplete_def
          spinAnimationComplete_def pageIdle_def)
  qed
  from i(1,3) m a b show ?thesis by blast
qed

theorem amount_reported_unless_receipt_arrives_witness:
  "selectedAmount (home (snd (advance (firePage (\<lambda>i. 1 / 2)) 3899
      (clickPage (\<lambda>i. 1 / 2) mountPage)))) = None \<and>
   selectedAmount (home (snd (advance (firePage (\<lambda>i. 1 / 2)) 4000
      (clickPage (\<lambda>i. 1 / 2) mountPage)))) = Some (5 / 100) \<and>
   modalRendered (home (snd (advance (firePage (\<lambda>i. 1 / 2)) 4000
      (clickPage (\<lambda>i. 1 / 2) mountPage)))) \<and>
   pageIdle (closePage (\<lambda>i. 1 / 2) (advance (firePage (\<lambda>i. 1 / 2)) 4000
      (clickPage (\<lambda>i. 1 / 2) mountPage))) \<and>
   \<not> spinDisabled (home (snd (closePage (\<lambda>i. 1 / 2) (advance (firePage (\<lambda>i. 1 / 2)) 4000
      (clickPage (\<lambda>i. 1 / 2) mountPage))))) \<and>
   selectedAmount (home (snd (advance (firePage (\<lambda>i. 1 / 2)) 3000
      (receiptPage (\<lambda>i. 1 / 2) (''0x'' @ replicate 64 (CHR ''8''))
        (advance (firePage (\<lambda>i. 1 / 2)) 1000
          (clickPage (\<lambda>i. 1 / 2) (closePage (\<lambda>i. 1 / 2) (advance (firePage (\<lambda>i. 1 / 2)) 4000
            (clickPage (\<lambda>i. 1 / 2) mountPage))))))))) = None \<and>
   \<not> showModal (home (snd (advance (firePage (\<lambda>i. 1 / 2)) 3000
      (receiptPage (\<lambda>i. 1 / 2) (''0x'' @ replicate 64 (CHR ''8''))
        (advance (firePage (\<lambda>i. 1 / 2)) 1000
          (clickPage (\<lambda>i. 1 / 2) (closePage (\<lambda>i. 1 / 2) (advance (firePage (\<lambda>i. 1 / 2)) 4000
            (clickPage (\<lambda>i. 1 / 2) mountPage))))))))) \<and>
   \<not> isSpinning (home (snd (advance (firePage (\<lambda>i. 1 / 2)) 3000
      (receiptPage (\<lambda>i. 1 / 2) (''0x'' @ replicate 64 (CHR ''8''))
        (advance (firePage (\<lambda>i. 1 / 2)) 1000
          (clickPage (\<lambda>i. 1 / 2) (closePage (\<lambda>i. 1 / 2) (advance (firePage (\<lambda>i. 1 / 2)) 4000
            (clickPage (\<lambda>i. 1 / 2) mountPage))))))))) \<and>
   timers (fst (advance (firePage (\<lambda>i. 1 / 2)) 3000
      (receiptPage (\<lambda>i. 1 / 2) (''0x'' @ replicate 64 (CHR ''8''))
        (advance (firePage (\<lambda>i. 1 / 2)) 1000
          (clickPage (\<lambda>i. 1 / 2) (closePage (\<lambda>i. 1 / 2) (advance (firePage (\<lambda>i. 1 / 2)) 4000
            (clickPage (\<lambda>i. 1 / 2) mountPage)))))))) = []"
proof -
  let ?rnd = "\<lambda>i::nat. 1 / 2 :: real"
  let ?first = "advance (firePage ?rnd) 4000 (clickPage ?rnd mountPage)"
  let ?bw = "closePage ?rnd ?first"
  have i: "pageIdle mountPage"
    by (simp add: pageIdle_def mountPage_def startBrowser_def mountPicker_def mountSpinner_def)
  have e: "\<not> spinDisabled (home (snd mountPage))"
    by (simp add: mountPage_def initial_def spinDisabled_def)
  have k: "(100::nat) < 1000" "(1000::nat) < 3900" by simp_all
  have r: "(0::real) \<le> ?rnd j" for j by simp
  have z: "DONATION_AMOUNTS ! 0 = 5 / 100" by (simp add: DONATION_AMOUNTS_def)
  note one = amount_reported_unless_receipt_arrives [OF i e k r r, where hash = "[]",
      unfolded segment_at_half]
  from one [where n = 3899]
  have a1: "selectedAmount (home (snd (advance (firePage ?rnd) 3899
      (clickPage ?rnd mountPage)))) = None" by simp
  from one [where n = 4000]
  have a2: "selectedAmount (home (snd ?first)) = Some (5 / 100)" by (simp add: z)
  from selectedSegment_listed [OF newRotation_nonneg, of "1 / 2" "1 / 2"]
  obtain a where "selectedSegment (newRotation 0 (1 / 2) (1 / 2)) = Some a" by auto
  then have seg: "selectedSegment (newRotation 0 (?rnd (drawn (snd mountPage) + 1))
      (?rnd (drawn (snd mountPage) + 2))) = Some a" by simp
  from page_spin_phases(3) [OF i e seg, of 0]
  have f: "pageIdle ?first"
    "home (snd ?first) = spinAnimationComplete (handleSpinComplete a
       (fst (handleStartSpin (home (snd mountPage)))))" by simp_all
  have o: "modalRendered (home (snd ?first))"
    by (simp only: f(2))
      (simp add: modalRendered_def spinAnimationComplete_def handleSpinComplete_def
        handleStartSpin_def mountPage_def initial_charity)
  have ns: "\<not> isSpinning (handleCloseModal (home (snd ?first)))"
    by (simp only: f(2)) (simp add: handleCloseModal_def spinAnimationComplete_def)
  from render_idle(1,2) [OF f(1) ns, of ?rnd]
  have c: "pageIdle ?bw" "home (snd ?bw) = handleCloseModal (home (snd ?first))"
    by (simp_all add: closePage_def)
  have en: "\<not> spinDisabled (home (snd ?bw))"
    by (simp only: c(2) f(2))
      (simp add: spinDisabled_def handleCloseModal_def spinAnimationComplete_def)
  from amount_reported_unless_receipt_arrives [OF c(1) en k r r, where n = 3000
      and hash = "''0x'' @ replicate 64 (CHR ''8'')"] a1 a2 o c(1) en
  show ?thesis by simp
qed

section \<open>The charity held by the root view\<close>





end
